theory Spec2Isabelle
  imports Complex_Main "HOL-Library.Multiset" "HOL-Library.Log_Nat"
begin

section \<open>Go's float64\<close>

text \<open>
  Go's \<^verbatim>\<open>float64\<close> is IEEE 754 binary64 with round-to-nearest, ties-to-even.
  A value is a NaN, an infinity, the negative zero, or a finite rational \<open>Fin x\<close>
  (\<open>Fin 0\<close> is the positive zero). \<open>round64\<close> rounds an exact rational result to
  the nearest representable value: 53 significant bits, subnormals below \<open>2 powi - 1022\<close>
  (quantum \<open>2 powi - 1074\<close>), overflow to an infinity from \<open>2 ^ 1024\<close> on.
\<close>

datatype float64 = NaN | PInf | NInf | NZero | Fin rat

definition ilog2 :: "rat \<Rightarrow> int" where
  \<comment> \<open>the binary exponent of a positive rational: \<open>2 powi ilog2 a \<le> a < 2 powi (ilog2 a + 1)\<close>\<close>
  "ilog2 a = (if 1 \<le> a then bitlen \<lfloor>a\<rfloor> - 1 else - bitlen (\<lceil>1 / a\<rceil> - 1))"

definition round_even :: "rat \<Rightarrow> int" where
  "round_even x =
     (let f = \<lfloor>x\<rfloor>; d = x - of_int f
      in if d < 1 / 2 then f else if 1 / 2 < d then f + 1
         else if even f then f else f + 1)"

definition quantum :: "rat \<Rightarrow> int" where
  "quantum a = max (ilog2 a - 52) (- 1074)"

definition round64 :: "rat \<Rightarrow> float64" where
  "round64 x =
     (if x = 0 then Fin 0
      else let a = \<bar>x\<bar>; q = quantum a;
               v = of_int (round_even (a / 2 powi q)) * 2 powi q
           in if 2 ^ 1024 \<le> v then (if x < 0 then NInf else PInf)
              else if v = 0 then (if x < 0 then NZero else Fin 0)
              else Fin (if x < 0 then - v else v))"

definition valid64 :: "float64 \<Rightarrow> bool" where
  \<comment> \<open>the finite values that really are binary64 numbers: rounding leaves them alone\<close>
  "valid64 v = (case v of Fin x \<Rightarrow> round64 x = Fin x | _ \<Rightarrow> True)"

definition isneg :: "float64 \<Rightarrow> bool" where
  "isneg v = (case v of Fin x \<Rightarrow> x < 0 | NInf \<Rightarrow> True | NZero \<Rightarrow> True | _ \<Rightarrow> False)"

definition iszero :: "float64 \<Rightarrow> bool" where
  "iszero v = (v = NZero \<or> v = Fin 0)"

definition isinf :: "float64 \<Rightarrow> bool" where
  "isinf v = (v = PInf \<or> v = NInf)"

definition zero64 :: "bool \<Rightarrow> float64" where
  "zero64 neg = (if neg then NZero else Fin 0)"

definition inf64 :: "bool \<Rightarrow> float64" where
  "inf64 neg = (if neg then NInf else PInf)"

definition ratval :: "float64 \<Rightarrow> rat" where
  "ratval v = (case v of Fin x \<Rightarrow> x | _ \<Rightarrow> 0)"

definition fneg :: "float64 \<Rightarrow> float64" where
  "fneg a = (case a of NaN \<Rightarrow> NaN | PInf \<Rightarrow> NInf | NInf \<Rightarrow> PInf | NZero \<Rightarrow> Fin 0
             | Fin x \<Rightarrow> (if x = 0 then NZero else Fin (- x)))"

definition fadd :: "float64 \<Rightarrow> float64 \<Rightarrow> float64" where
  "fadd a b =
     (if a = NaN \<or> b = NaN then NaN
      else if isinf a \<and> isinf b then (if a = b then a else NaN)
      else if isinf a then a
      else if isinf b then b
      else if iszero a \<and> iszero b then zero64 (isneg a \<and> isneg b)
      else if iszero a then b
      else if iszero b then a
      else round64 (ratval a + ratval b))"

definition fsub :: "float64 \<Rightarrow> float64 \<Rightarrow> float64" where
  "fsub a b = fadd a (fneg b)"

definition fmul :: "float64 \<Rightarrow> float64 \<Rightarrow> float64" where
  "fmul a b =
     (if a = NaN \<or> b = NaN then NaN
      else if (isinf a \<and> iszero b) \<or> (iszero a \<and> isinf b) then NaN
      else if isinf a \<or> isinf b then inf64 (isneg a \<noteq> isneg b)
      else if iszero a \<or> iszero b then zero64 (isneg a \<noteq> isneg b)
      else round64 (ratval a * ratval b))"

definition fdiv :: "float64 \<Rightarrow> float64 \<Rightarrow> float64" where
  \<comment> \<open>a float64 division never panics: a zero divisor gives an infinity or a NaN\<close>
  "fdiv a b =
     (if a = NaN \<or> b = NaN then NaN
      else if (isinf a \<and> isinf b) \<or> (iszero a \<and> iszero b) then NaN
      else if isinf a \<or> iszero b then inf64 (isneg a \<noteq> isneg b)
      else if isinf b \<or> iszero a then zero64 (isneg a \<noteq> isneg b)
      else round64 (ratval a / ratval b))"

definition float64_of_nat :: "nat \<Rightarrow> float64" where
  \<comment> \<open>the conversion \<^verbatim>\<open>float64(len(w))\<close>\<close>
  "float64_of_nat n = round64 (of_nat n)"

section \<open>Errors, coordinates and the outside world\<close>

text \<open>
  A Go \<^verbatim>\<open>error\<close> is an interface value: \<^verbatim>\<open>nil\<close> (\<open>None\<close>) or an error carrying a
  message. The HTTP client, the JSON decoder and \<^verbatim>\<open>strconv.FormatFloat\<close> are library
  code outside the repository; they are the fields of a \<open>world\<close>. Decoding a body
  gives the number found at each JSON path (0 where the path is absent, as the decoder
  leaves a struct field untouched) and the decoder's error. Logging is left out.
\<close>

datatype go_error = Error string

type_synonym error = "go_error option"

record Coord =
  Lon :: float64
  Lat :: float64

record world =
  http_Get :: "string \<Rightarrow> string \<times> error"
  json_Decode :: "string \<Rightarrow> (string list \<Rightarrow> float64) \<times> error"
  FormatFloat :: "float64 \<Rightarrow> string"

type_synonym weatherProvider = "string \<Rightarrow> float64 \<times> error"

type_synonym multiWeatherProvider = "weatherProvider list"

definition FloatToString :: "world \<Rightarrow> float64 \<Rightarrow> string" where
  "FloatToString env input_num = FormatFloat env input_num"

definition FahrenheitToCelsius :: "float64 \<Rightarrow> float64" where
  "FahrenheitToCelsius input_num = fdiv (fmul (fsub input_num (Fin 32)) (Fin 5)) (Fin 9)"

definition openWeatherMap_coordinates :: "world \<Rightarrow> string \<Rightarrow> Coord \<times> error" where
  "openWeatherMap_coordinates env city =
     (let (resp, err) = http_Get env (''http://api.openweathermap.org/data/2.5/weather?q='' @ city)
      in if err \<noteq> None then (\<lparr>Lon = Fin 0, Lat = Fin 0\<rparr>, None)
         else let (d, err) = json_Decode env resp
              in if err \<noteq> None then (\<lparr>Lon = Fin 0, Lat = Fin 0\<rparr>, None)
                 else (\<lparr>Lon = d [''coord'', ''lon''], Lat = d [''coord'', ''lat'']\<rparr>, None))"

definition forecastIo_url :: "world \<Rightarrow> string \<Rightarrow> Coord \<Rightarrow> string" where
  "forecastIo_url env apiKey coord =
     ''https://api.forecast.io/forecast/'' @ apiKey @ ''/''
       @ FloatToString env (Lat coord) @ '','' @ FloatToString env (Lon coord)"

definition forecastIo_query :: "world \<Rightarrow> string \<Rightarrow> Coord \<Rightarrow> float64 \<times> error" where
  \<comment> \<open>\<^verbatim>\<open>forecastIo.temperature\<close> from the construction of the URL on\<close>
  "forecastIo_query env apiKey coord =
     (let url = forecastIo_url env apiKey coord;
          (resp, err) = http_Get env url
      in if err \<noteq> None then (Fin 0, err)
         else let (d, err) = json_Decode env resp
              in if err \<noteq> None then (Fin 0, err)
                 else (FahrenheitToCelsius (d [''currently'', ''temperature'']), None))"

definition forecastIo_temperature :: "world \<Rightarrow> string \<Rightarrow> weatherProvider" where
  "forecastIo_temperature env apiKey city =
     (let (coord, err) = openWeatherMap_coordinates env city
      in if err \<noteq> None then (Fin 0, err)
         else forecastIo_query env apiKey coord)"

definition openWeatherMap_temperature :: "world \<Rightarrow> weatherProvider" where
  "openWeatherMap_temperature env city =
     (let (resp, err) = http_Get env (''http://api.openweathermap.org/data/2.5/weather?q='' @ city)
      in if err \<noteq> None then (Fin 0, err)
         else let (d, err) = json_Decode env resp
              in if err \<noteq> None then (Fin 0, err)
                 else let celsius = fsub (d [''main'', ''temp'']) (round64 (27315 / 100))
                      in (celsius, None))"

definition weatherUnderground_temperature :: "world \<Rightarrow> string \<Rightarrow> weatherProvider" where
  \<comment> \<open>the last return gives back the \<^verbatim>\<open>err\<close> of \<^verbatim>\<open>http.Get\<close>: the decoder's is scoped to its \<^verbatim>\<open>if\<close>\<close>
  "weatherUnderground_temperature env apiKey city =
     (let (resp, err) = http_Get env (''http://api.wunderground.com/api/'' @ apiKey
                                        @ ''/conditions/q/'' @ city @ ''.json'')
      in if err \<noteq> None then (Fin 0, err)
         else let (d, err') = json_Decode env resp
              in if err' \<noteq> None then (Fin 0, err')
                 else (d [''current_observation'', ''temp_c''], err))"

section \<open>The aggregator \<^verbatim>\<open>multiWeatherProvider.temperature\<close>\<close>

text \<open>
  One call of \<^verbatim>\<open>temperature\<close> is an interleaving of the caller with the goroutines
  it starts. The state holds the caller's variables (\<open>spawned\<close> is the index of the
  \<^verbatim>\<open>range\<close> loop, \<open>loop_i\<close> is \<^verbatim>\<open>i\<close>, \<open>sum_acc\<close> is \<^verbatim>\<open>sum\<close>, \<open>ret\<close> the returned
  pair once it has returned), the goroutines started and not yet finished, and the
  contents of the two buffered channels, oldest first. The events:
  \<^item> \<open>Spawn\<close>: one iteration of the \<^verbatim>\<open>range\<close> loop starts a goroutine for the next provider;
  \<^item> \<open>Finish k\<close>: the \<open>k\<close>-th running goroutine gets its provider's answer and sends it
    on \<^verbatim>\<open>errs\<close> or on \<^verbatim>\<open>temps\<close>; a send on a full channel blocks, so the event is not enabled;
  \<^item> \<open>RecvTemp\<close>, \<open>RecvErr\<close>: the \<^verbatim>\<open>select\<close> of the collecting loop takes the branch of
    a channel that holds a value (either one when both do);
  \<^item> \<open>Return\<close>: the loop is over and the caller returns the mean.

  A provider is the function from the city to what its \<^verbatim>\<open>temperature\<close> method returns:
  the outside world does not change during a call, and every provider returns.
\<close>

datatype event = Spawn | Finish nat | RecvTemp | RecvErr | Return

record agg_state =
  spawned :: nat
  running :: "weatherProvider list"
  temps :: "float64 list"
  errs :: "error list"
  loop_i :: nat
  sum_acc :: float64
  ret :: "(float64 \<times> error) option"

definition init_state :: agg_state where
  "init_state = \<lparr>spawned = 0, running = [], temps = [], errs = [],
                  loop_i = 0, sum_acc = Fin 0, ret = None\<rparr>"

definition send :: "nat \<Rightarrow> 'a list \<Rightarrow> 'a \<Rightarrow> 'a list option" where
  \<comment> \<open>a send on a channel of capacity \<open>cap\<close>; \<open>None\<close> when it would block\<close>
  "send cap buf v = (if length buf < cap then Some (buf @ [v]) else None)"

definition drop_nth :: "nat \<Rightarrow> 'a list \<Rightarrow> 'a list" where
  "drop_nth k xs = take k xs @ drop (Suc k) xs"

fun step :: "multiWeatherProvider \<Rightarrow> string \<Rightarrow> event \<Rightarrow> agg_state \<Rightarrow> agg_state option" where
  "step w city Spawn s =
     (if ret s = None \<and> spawned s < length w
      then Some (s\<lparr>running := running s @ [w ! spawned s], spawned := Suc (spawned s)\<rparr>)
      else None)"
| "step w city (Finish k) s =
     (if k < length (running s)
      then (let (t, err) = (running s ! k) city
            in if err \<noteq> None
               then (case send (length w) (errs s) err of
                       None \<Rightarrow> None
                     | Some q \<Rightarrow> Some (s\<lparr>errs := q, running := drop_nth k (running s)\<rparr>))
               else (case send (length w) (temps s) t of
                       None \<Rightarrow> None
                     | Some q \<Rightarrow> Some (s\<lparr>temps := q, running := drop_nth k (running s)\<rparr>)))
      else None)"
| "step w city RecvTemp s =
     (if ret s = None \<and> spawned s = length w \<and> loop_i s < length w
      then (case temps s of
              [] \<Rightarrow> None
            | temp # q \<Rightarrow> Some (s\<lparr>temps := q, sum_acc := fadd (sum_acc s) temp,
                                   loop_i := Suc (loop_i s)\<rparr>))
      else None)"
| "step w city RecvErr s =
     (if ret s = None \<and> spawned s = length w \<and> loop_i s < length w
      then (case errs s of
              [] \<Rightarrow> None
            | err # q \<Rightarrow> Some (s\<lparr>errs := q, ret := Some (Fin 0, err)\<rparr>))
      else None)"
| "step w city Return s =
     (if ret s = None \<and> spawned s = length w \<and> \<not> loop_i s < length w
      then Some (s\<lparr>ret := Some (fdiv (sum_acc s) (float64_of_nat (length w)), None)\<rparr>)
      else None)"

fun exec :: "multiWeatherProvider \<Rightarrow> string \<Rightarrow> event list \<Rightarrow> agg_state \<Rightarrow> agg_state option" where
  "exec w city [] s = Some s"
| "exec w city (e # es) s =
     (case step w city e s of None \<Rightarrow> None | Some s' \<Rightarrow> exec w city es s')"

definition result_of :: "agg_state option \<Rightarrow> (float64 \<times> error) option" where
  \<comment> \<open>what the call has returned in the state an execution ends in, if anything\<close>
  "result_of r = (case r of None \<Rightarrow> None | Some s \<Rightarrow> ret s)"

section \<open>The HTTP handlers\<close>

text \<open>
  \<^verbatim>\<open>strings.SplitN(s, sep, n)\<close> for a non-empty separator and \<open>n \<ge> 0\<close>: at most \<open>n\<close>
  pieces, the last one the unsplit rest. Indexing a slice out of range panics. The
  handler \<^verbatim>\<open>weather\<close> answers with what the aggregator returns, so its model takes
  the interleaving of that call; the elapsed time it reports is left out.
\<close>

fun cut :: "string \<Rightarrow> string \<Rightarrow> (string \<times> string) option" where
  "cut sep [] = (if sep = [] then Some ([], []) else None)"
| "cut sep (c # cs) =
     (if take (length sep) (c # cs) = sep then Some ([], drop (length sep) (c # cs))
      else (case cut sep cs of None \<Rightarrow> None | Some (a, b) \<Rightarrow> Some (c # a, b)))"

fun SplitN :: "string \<Rightarrow> string \<Rightarrow> nat \<Rightarrow> string list" where
  "SplitN s sep 0 = []"
| "SplitN s sep (Suc 0) = [s]"
| "SplitN s sep (Suc (Suc n)) =
     (case cut sep s of None \<Rightarrow> [s] | Some (a, b) \<Rightarrow> a # SplitN b sep (Suc n))"

datatype panic = IndexOutOfRange

definition index :: "'a list \<Rightarrow> nat \<Rightarrow> panic + 'a" where
  "index xs n = (if n < length xs then Inr (xs ! n) else Inl IndexOutOfRange)"

datatype response =
    InternalServerError string
  | CoordinatesJSON string Coord
  | WeatherJSON string float64

definition coordinates :: "world \<Rightarrow> string \<Rightarrow> panic + response" where
  "coordinates env path =
     (case index (SplitN path ''/'' 3) 2 of
        Inl e \<Rightarrow> Inl e
      | Inr city \<Rightarrow>
          (let (lat, err) = openWeatherMap_coordinates env city
           in case err of
                Some (Error msg) \<Rightarrow> Inr (InternalServerError msg)
              | None \<Rightarrow> Inr (CoordinatesJSON city lat)))"

definition mw :: "world \<Rightarrow> multiWeatherProvider" where
  "mw env = [openWeatherMap_temperature env,
             weatherUnderground_temperature env ''1df429f462bc7ee1'',
             forecastIo_temperature env ''12e03ff21975540f37c2b8cc79e3093b'']"

definition weather :: "world \<Rightarrow> event list \<Rightarrow> string \<Rightarrow> panic + response option" where
  \<comment> \<open>\<open>None\<close>: under this interleaving the aggregator has not returned\<close>
  "weather env es path =
     (case index (SplitN path ''/'' 3) 2 of
        Inl e \<Rightarrow> Inl e
      | Inr city \<Rightarrow>
          Inr (case result_of (exec (mw env) city es init_state) of
                 None \<Rightarrow> None
               | Some (temp, err) \<Rightarrow>
                   (case err of
                      Some (Error msg) \<Rightarrow> Some (InternalServerError msg)
                    | None \<Rightarrow> Some (WeatherJSON city temp))))"

section \<open>Test doubles and the bookkeeping of an execution\<close>

definition stub :: "float64 \<times> error \<Rightarrow> weatherProvider" where
  \<comment> \<open>a provider that answers every city with the same pair\<close>
  "stub r city = r"

text \<open>
  A small world for examples: Oslo is known to every service, at 59.5 north and 10.75
  east, every other request fails, except the forecast for the coordinates (0, 0).
\<close>

definition test_http :: "string \<Rightarrow> string \<times> error" where
  "test_http url =
     (if url = ''http://api.openweathermap.org/data/2.5/weather?q=Oslo'' then (''owm'', None)
      else if url = ''http://api.wunderground.com/api/k/conditions/q/Oslo.json'' then (''wu'', None)
      else if url = ''https://api.forecast.io/forecast/k/59.50,10.75'' then (''fio'', None)
      else if url = ''https://api.forecast.io/forecast/k/0.00,0.00'' then (''fio0'', None)
      else ('''', Some (Error ''no such host'')))"

definition test_fields :: "string \<Rightarrow> string list \<Rightarrow> float64" where
  "test_fields body path =
     (if body = ''owm'' \<and> path = [''main'', ''temp''] then Fin 300
      else if body = ''owm'' \<and> path = [''coord'', ''lon''] then Fin (43 / 4)
      else if body = ''owm'' \<and> path = [''coord'', ''lat''] then Fin (119 / 2)
      else if body = ''wu'' \<and> path = [''current_observation'', ''temp_c''] then Fin 21
      else if body = ''fio'' \<and> path = [''currently'', ''temperature''] then Fin 50
      else if body = ''fio0'' \<and> path = [''currently'', ''temperature''] then Fin 86
      else Fin 0)"

definition test_format :: "float64 \<Rightarrow> string" where
  "test_format x =
     (if x = Fin (119 / 2) then ''59.50'' else if x = Fin (43 / 4) then ''10.75''
      else if x = Fin 0 then ''0.00'' else ''?'')"

definition test_world :: world where
  "test_world = \<lparr>http_Get = test_http, json_Decode = (\<lambda>body. (test_fields body, None)),
                  FormatFloat = test_format\<rparr>"

text \<open>
  The readings of the providers that succeed and the errors of those that fail, as
  multisets; \<open>inv\<close> says where every goroutine started so far has gone: it is still
  running, or its value waits in a channel, or the caller has consumed it.
\<close>

definition okv :: "string \<Rightarrow> weatherProvider list \<Rightarrow> float64 multiset" where
  "okv city ps = mset (map (\<lambda>p. fst (p city)) (filter (\<lambda>p. snd (p city) = None) ps))"

definition bad :: "string \<Rightarrow> weatherProvider list \<Rightarrow> error multiset" where
  "bad city ps = mset (map (\<lambda>p. snd (p city)) (filter (\<lambda>p. snd (p city) \<noteq> None) ps))"

definition returned_err :: "agg_state \<Rightarrow> error multiset" where
  "returned_err s =
     (case ret s of None \<Rightarrow> {#} | Some (v, err) \<Rightarrow> (if err = None then {#} else {#err#}))"

definition ret_ok :: "multiWeatherProvider \<Rightarrow> agg_state \<Rightarrow> bool" where
  "ret_ok w s =
     (case ret s of
        None \<Rightarrow> True
      | Some (v, err) \<Rightarrow>
          spawned s = length w \<and>
          (if err = None
           then v = fdiv (sum_acc s) (float64_of_nat (length w)) \<and> loop_i s = length w
           else v = Fin 0))"

definition inv :: "multiWeatherProvider \<Rightarrow> string \<Rightarrow> agg_state \<Rightarrow> bool" where
  "inv w city s \<longleftrightarrow>
     spawned s \<le> length w \<and>
     (\<exists>cs. sum_acc s = foldl fadd (Fin 0) cs \<and> loop_i s = length cs \<and>
           mset cs + mset (temps s) + okv city (running s) = okv city (take (spawned s) w)) \<and>
     mset (errs s) + returned_err s + bad city (running s) = bad city (take (spawned s) w) \<and>
     (0 < loop_i s \<longrightarrow> spawned s = length w) \<and>
     ret_ok w s"

definition todo :: "multiWeatherProvider \<Rightarrow> agg_state \<Rightarrow> nat" where
  \<comment> \<open>a bound on the events the caller and the running goroutines still have to take\<close>
  "todo w s = 2 * (length w - spawned s) + length (running s) + (length w - loop_i s)"

section \<open>Facts about float64\<close>

lemma floor_rat_numeral: "\<lfloor>numeral a / numeral b :: rat\<rfloor> = numeral a div numeral b"
  by (metis floor_divide_of_int_eq of_int_numeral)

lemma round_even_of_int: "round_even (of_int m) = m"
  by (simp add: round_even_def)

lemma round64_of_int:
  assumes "n \<noteq> 0" and "\<bar>n\<bar> < 2 ^ 53"
  shows "round64 (of_int n) = Fin (of_int n)"
proof -
  define a :: rat where "a = \<bar>of_int n\<bar>"
  define k where "k = nat (- quantum a)"
  have a: "a = of_int \<bar>n\<bar>" by (simp add: a_def)
  have a1: "1 \<le> a" using assms(1) by (simp add: a)
  have "bitlen \<bar>n\<bar> \<le> 53"
    using assms(2) by (simp add: bitlen_le_iff_power)
  moreover have "\<lfloor>a\<rfloor> = \<bar>n\<bar>" unfolding a by (rule floor_of_int)
  ultimately have "ilog2 a \<le> 52"
    using a1 by (simp add: ilog2_def)
  then have q: "quantum a \<le> 0" by (simp add: quantum_def)
  then have p: "(2::rat) powi quantum a = 1 / 2 ^ k"
    by (simp add: power_int_def k_def field_simps)
  have "a / 2 powi quantum a = a * 2 ^ k"
    by (simp add: p)
  also have "\<dots> = of_int (\<bar>n\<bar> * 2 ^ k)"
    by (simp add: a)
  finally have "round_even (a / 2 powi quantum a) = \<bar>n\<bar> * 2 ^ k"
    by (simp only: round_even_of_int)
  then have "of_int (round_even (a / 2 powi quantum a)) * 2 powi quantum a
               = (of_int (\<bar>n\<bar> * 2 ^ k) :: rat) * (1 / 2 ^ k)"
    by (simp only: p)
  also have "\<dots> = a"
    by (simp add: a)
  finally have v: "of_int (round_even (a / 2 powi quantum a)) * 2 powi quantum a = a" .
  have "\<bar>n\<bar> < 2 ^ 1024"
    using assms(2) by (rule less_trans) simp
  then have "a < 2 ^ 1024"
    unfolding a by (metis of_int_less_numeral_power_cancel_iff)
  moreover have "a \<noteq> 0" using a1 by simp
  moreover have "of_int n \<noteq> (0::rat)" using assms(1) by simp
  moreover have "(if (of_int n :: rat) < 0 then - a else a) = of_int n"
    by (simp add: a_def)
  ultimately show ?thesis
    unfolding round64_def Let_def a_def [symmetric] v by simp
qed

lemma float64_of_nat_exact: "n < 2 ^ 53 \<Longrightarrow> float64_of_nat n = Fin (of_nat n)"
proof (cases "n = 0")
  case True
  then show ?thesis by (simp add: float64_of_nat_def round64_def)
next
  case False
  assume "n < 2 ^ 53"
  then have "\<bar>int n\<bar> < 2 ^ 53" by (metis abs_of_nat of_nat_less_numeral_power_cancel_iff)
  with False have "round64 (of_int (int n)) = Fin (of_int (int n))"
    by (intro round64_of_int) simp_all
  then show ?thesis by (simp add: float64_of_nat_def)
qed

lemma round64_numeral:
  "numeral k < (2::int) ^ 53 \<Longrightarrow> round64 (numeral k) = Fin (numeral k)"
  using round64_of_int [of "numeral k"] by simp

lemma fadd_Fin:
  "x \<noteq> 0 \<Longrightarrow> y \<noteq> 0 \<Longrightarrow> fadd (Fin x) (Fin y) = round64 (x + y)"
  by (simp add: fadd_def isinf_def iszero_def ratval_def)

lemma fadd_zero_left: "fadd (Fin 0) v = (if v = NZero then Fin 0 else v)"
  by (cases v) (simp_all add: fadd_def isinf_def iszero_def ratval_def zero64_def isneg_def round64_def)

lemma fdiv_Fin:
  "x \<noteq> 0 \<Longrightarrow> y \<noteq> 0 \<Longrightarrow> fdiv (Fin x) (Fin y) = round64 (x / y)"
  by (simp add: fdiv_def isinf_def iszero_def ratval_def)

lemma fdiv_one: "valid64 v \<Longrightarrow> fdiv v (Fin 1) = v"
  by (cases v) (auto simp: fdiv_def isinf_def iszero_def ratval_def zero64_def inf64_def isneg_def valid64_def)

lemma fdiv_zero_zero: "fdiv (Fin 0) (Fin 0) = NaN"
  by (simp add: fdiv_def iszero_def isinf_def)

lemma float64_of_nat_0: "float64_of_nat 0 = Fin 0"
  by (simp add: float64_of_nat_def round64_def)

text \<open>Roundings at the edge of the 53-bit significand, where the order of a sum shows.\<close>

lemma quantum_2p53_1: "quantum 9007199254740993 = 1"
  by (simp add: quantum_def ilog2_def floor_rat_numeral compute_bitlen)

lemma round64_2p53_1: "round64 9007199254740993 = Fin 9007199254740992"
  by (simp add: round64_def quantum_2p53_1 round_even_def Let_def floor_rat_numeral)

lemma quantum_2p53_2: "quantum 9007199254740994 = 1"
  by (simp add: quantum_def ilog2_def floor_rat_numeral compute_bitlen)

lemma round64_2p53_2: "round64 9007199254740994 = Fin 9007199254740994"
  by (simp add: round64_def quantum_2p53_2 round_even_def Let_def floor_rat_numeral)

lemma quantum_2p53_div3: "quantum (9007199254740992 / 3) = - 1"
  by (simp add: quantum_def ilog2_def floor_rat_numeral compute_bitlen)

lemma round64_2p53_div3: "round64 (9007199254740992 / 3) = Fin (6004799503160661 / 2)"
  by (simp add: round64_def quantum_2p53_div3 round_even_def Let_def power_int_minus floor_rat_numeral)

lemma quantum_2p53_2_div3: "quantum (9007199254740994 / 3) = - 1"
  by (simp add: quantum_def ilog2_def floor_rat_numeral compute_bitlen)

lemma round64_2p53_2_div3: "round64 (9007199254740994 / 3) = Fin (6004799503160663 / 2)"
  by (simp add: round64_def quantum_2p53_2_div3 round_even_def Let_def power_int_minus floor_rat_numeral)

text \<open>The familiar example: in binary64, 0.1 + 0.2 is not the float64 nearest to 0.3.\<close>

lemma ceiling_rat_numeral: "\<lceil>numeral a / numeral b :: rat\<rceil> = - (- numeral a div numeral b)"
  by (metis ceiling_divide_eq_div of_int_numeral)

lemma quantum_tenth: "quantum (1 / 10) = - 56"
  by (simp add: quantum_def ilog2_def ceiling_rat_numeral compute_bitlen)

lemma round64_tenth: "round64 (1 / 10) = Fin (3602879701896397 / 36028797018963968)"
  by (simp add: round64_def quantum_tenth round_even_def Let_def power_int_minus floor_rat_numeral)

lemma quantum_fifth: "quantum (1 / 5) = - 55"
  by (simp add: quantum_def ilog2_def ceiling_rat_numeral compute_bitlen)

lemma round64_fifth: "round64 (1 / 5) = Fin (3602879701896397 / 18014398509481984)"
  by (simp add: round64_def quantum_fifth round_even_def Let_def power_int_minus floor_rat_numeral)

lemma quantum_three_tenths: "quantum (3 / 10) = - 54"
  by (simp add: quantum_def ilog2_def ceiling_rat_numeral compute_bitlen)

lemma round64_three_tenths: "round64 (3 / 10) = Fin (5404319552844595 / 18014398509481984)"
  by (simp add: round64_def quantum_three_tenths round_even_def Let_def power_int_minus floor_rat_numeral)

lemma quantum_tenth_plus_fifth: "quantum (10808639105689191 / 36028797018963968) = - 54"
  by (simp add: quantum_def ilog2_def ceiling_rat_numeral compute_bitlen)

lemma round64_tenth_plus_fifth:
  "round64 (10808639105689191 / 36028797018963968) = Fin (1351079888211149 / 4503599627370496)"
  by (simp add: round64_def quantum_tenth_plus_fifth round_even_def Let_def power_int_minus
      floor_rat_numeral)

lemma tenth_plus_fifth:
  "fadd (round64 (1 / 10)) (round64 (1 / 5)) = Fin (1351079888211149 / 4503599627370496)"
  "fadd (round64 (1 / 10)) (round64 (1 / 5)) \<noteq> round64 (3 / 10)"
  by (simp_all add: round64_tenth round64_fifth round64_three_tenths fadd_Fin
      round64_tenth_plus_fifth)

section \<open>The invariant of an execution\<close>

lemma okv_append: "okv city (xs @ ys) = okv city xs + okv city ys"
  by (simp add: okv_def)

lemma bad_append: "bad city (xs @ ys) = bad city xs + bad city ys"
  by (simp add: bad_def)

lemma okv_single: "okv city [p] = (if snd (p city) = None then {#fst (p city)#} else {#})"
  by (simp add: okv_def)

lemma bad_single: "bad city [p] = (if snd (p city) = None then {#} else {#snd (p city)#})"
  by (simp add: bad_def)

lemma okv_Cons: "okv city (x # xs) = okv city [x] + okv city xs"
  by (simp add: okv_def)

lemma bad_Cons: "bad city (x # xs) = bad city [x] + bad city xs"
  by (simp add: bad_def)

lemma okv_drop_nth:
  "k < length xs \<Longrightarrow> okv city (drop_nth k xs) + okv city [xs ! k] = okv city xs"
proof -
  assume k: "k < length xs"
  have "okv city (drop_nth k xs) + okv city [xs ! k]
          = okv city (take k xs @ xs ! k # drop (Suc k) xs)"
    by (simp add: okv_def drop_nth_def)
  also have "take k xs @ xs ! k # drop (Suc k) xs = xs"
    using k by (rule id_take_nth_drop [symmetric])
  finally show ?thesis .
qed

lemma bad_drop_nth:
  "k < length xs \<Longrightarrow> bad city (drop_nth k xs) + bad city [xs ! k] = bad city xs"
proof -
  assume k: "k < length xs"
  have "bad city (drop_nth k xs) + bad city [xs ! k]
          = bad city (take k xs @ xs ! k # drop (Suc k) xs)"
    by (simp add: bad_def drop_nth_def)
  also have "take k xs @ xs ! k # drop (Suc k) xs = xs"
    using k by (rule id_take_nth_drop [symmetric])
  finally show ?thesis .
qed

lemma size_okv_bad: "size (okv city ps) + size (bad city ps) = length ps"
proof -
  have "length (filter (\<lambda>p. snd (p city) = None) ps)
          + length (filter (\<lambda>p. \<not> snd (p city) = None) ps) = length ps"
    by (rule sum_length_filter_compl)
  then show ?thesis
    unfolding okv_def bad_def size_mset length_map .
qed

lemma bad_not_None: "e \<in># bad city ps \<Longrightarrow> e \<noteq> None"
  by (auto simp: bad_def)

lemma bad_from_provider: "e \<in># bad city ps \<Longrightarrow> \<exists>p\<in>set ps. snd (p city) = e"
  by (auto simp: bad_def)

lemma inv_init: "inv w city init_state"
  unfolding inv_def init_state_def
  by (auto simp: okv_def bad_def returned_err_def ret_ok_def intro: exI [of _ "[]"])

lemma invE:
  assumes "inv w city s"
  obtains cs where "sum_acc s = foldl fadd (Fin 0) cs" and "loop_i s = length cs"
    and "mset cs + mset (temps s) + okv city (running s) = okv city (take (spawned s) w)"
    and "mset (errs s) + returned_err s + bad city (running s) = bad city (take (spawned s) w)"
    and "0 < loop_i s \<longrightarrow> spawned s = length w"
    and "spawned s \<le> length w" and "ret_ok w s"
proof -
  from assms have "\<exists>cs. sum_acc s = foldl fadd (Fin 0) cs \<and> loop_i s = length cs \<and>
      mset cs + mset (temps s) + okv city (running s) = okv city (take (spawned s) w)"
    and rest: "mset (errs s) + returned_err s + bad city (running s) = bad city (take (spawned s) w)"
      "0 < loop_i s \<longrightarrow> spawned s = length w" "spawned s \<le> length w" "ret_ok w s"
    by (simp_all add: inv_def)
  then obtain cs where "sum_acc s = foldl fadd (Fin 0) cs" "loop_i s = length cs"
      "mset cs + mset (temps s) + okv city (running s) = okv city (take (spawned s) w)"
    by (elim exE conjE)
  with rest show thesis by (rule that [of cs, rotated -4])
qed

lemma invI:
  assumes "mset cs + mset (temps s) + okv city (running s) = okv city (take (spawned s) w)"
    and "mset (errs s) + returned_err s + bad city (running s) = bad city (take (spawned s) w)"
    and "sum_acc s = foldl fadd (Fin 0) cs" and "loop_i s = length cs"
    and "spawned s \<le> length w"
    and "0 < loop_i s \<longrightarrow> spawned s = length w"
    and "ret_ok w s"
  shows "inv w city s"
  unfolding inv_def using assms by (intro conjI exI [of _ cs]) simp_all

lemma inv_Spawn:
  assumes "inv w city s" and "step w city Spawn s = Some s'"
  shows "inv w city s'"
proof -
  from assms(2) have n: "spawned s < length w" and r: "ret s = None"
    and s': "s' = s\<lparr>running := running s @ [w ! spawned s], spawned := Suc (spawned s)\<rparr>"
    by (auto split: if_splits)
  from assms(1) obtain cs where cs: "sum_acc s = foldl fadd (Fin 0) cs" "loop_i s = length cs"
      "mset cs + mset (temps s) + okv city (running s) = okv city (take (spawned s) w)"
    and b: "mset (errs s) + returned_err s + bad city (running s) = bad city (take (spawned s) w)"
    and l: "0 < loop_i s \<longrightarrow> spawned s = length w"
    by (rule invE)
  have t: "take (Suc (spawned s)) w = take (spawned s) w @ [w ! spawned s]"
    using n by (rule take_Suc_conv_app_nth)
  have "mset cs + mset (temps s') + okv city (running s') = okv city (take (spawned s') w)"
    using cs(3) by (simp add: s' t okv_append add.assoc)
  moreover have "mset (errs s') + returned_err s' + bad city (running s') = bad city (take (spawned s') w)"
    using b by (simp add: s' t bad_append returned_err_def add.assoc)
  moreover have "sum_acc s' = foldl fadd (Fin 0) cs" "loop_i s' = length cs"
    using cs by (simp_all add: s')
  moreover have "spawned s' \<le> length w" using n by (simp add: s')
  moreover have "0 < loop_i s' \<longrightarrow> spawned s' = length w" using l n by (simp add: s')
  moreover have "ret_ok w s'" using r by (simp add: ret_ok_def s')
  ultimately show ?thesis by (rule invI)
qed

lemma inv_Finish:
  assumes "inv w city s" and "step w city (Finish k) s = Some s'"
  shows "inv w city s'"
proof -
  from assms(2) have k: "k < length (running s)"
    by (auto split: if_splits)
  obtain t err where p: "(running s ! k) city = (t, err)"
    by (cases "(running s ! k) city")
  from assms(1) obtain cs where cs: "sum_acc s = foldl fadd (Fin 0) cs" "loop_i s = length cs"
      "mset cs + mset (temps s) + okv city (running s) = okv city (take (spawned s) w)"
    and b: "mset (errs s) + returned_err s + bad city (running s) = bad city (take (spawned s) w)"
    and l: "0 < loop_i s \<longrightarrow> spawned s = length w"
    and n: "spawned s \<le> length w" and r: "ret_ok w s"
    by (rule invE)
  note ok = okv_drop_nth [OF k, of city] and bd = bad_drop_nth [OF k, of city]
  show ?thesis
  proof (cases "err = None")
    case True
    with assms(2) k p have s': "s' = s\<lparr>temps := temps s @ [t], running := drop_nth k (running s)\<rparr>"
      by (auto simp: send_def split: if_splits option.splits)
    have o1: "okv city [running s ! k] = {#t#}" and b1: "bad city [running s ! k] = {#}"
      using p True by (simp_all add: okv_single bad_single)
    have "mset cs + mset (temps s') + okv city (running s') = okv city (take (spawned s') w)"
      using cs(3) ok [symmetric] o1 by (simp add: s' add.assoc)
    moreover have "mset (errs s') + returned_err s' + bad city (running s') = bad city (take (spawned s') w)"
      using b bd [symmetric] b1 by (simp add: s' returned_err_def add.assoc)
    moreover have "sum_acc s' = foldl fadd (Fin 0) cs" "loop_i s' = length cs"
      using cs by (simp_all add: s')
    moreover have "spawned s' \<le> length w" using n by (simp add: s')
    moreover have "0 < loop_i s' \<longrightarrow> spawned s' = length w" using l by (simp add: s')
    moreover have "ret_ok w s'" using r by (auto simp: ret_ok_def s' split: option.splits)
    ultimately show ?thesis by (rule invI)
  next
    case False
    with assms(2) k p have s': "s' = s\<lparr>errs := errs s @ [err], running := drop_nth k (running s)\<rparr>"
      by (auto simp: send_def split: if_splits option.splits)
    have o1: "okv city [running s ! k] = {#}" and b1: "bad city [running s ! k] = {#err#}"
      using p False by (simp_all add: okv_single bad_single)
    have "mset cs + mset (temps s') + okv city (running s') = okv city (take (spawned s') w)"
      using cs(3) ok [symmetric] o1 by (simp add: s' add.assoc)
    moreover have "mset (errs s') + returned_err s' + bad city (running s') = bad city (take (spawned s') w)"
      using b bd [symmetric] b1 by (simp add: s' returned_err_def add.assoc)
    moreover have "sum_acc s' = foldl fadd (Fin 0) cs" "loop_i s' = length cs"
      using cs by (simp_all add: s')
    moreover have "spawned s' \<le> length w" using n by (simp add: s')
    moreover have "0 < loop_i s' \<longrightarrow> spawned s' = length w" using l by (simp add: s')
    moreover have "ret_ok w s'" using r by (auto simp: ret_ok_def s' split: option.splits)
    ultimately show ?thesis by (rule invI)
  qed
qed

lemma inv_loop_i_le:
  assumes "inv w city s"
  shows "loop_i s \<le> spawned s"
proof -
  from assms obtain cs where cs: "loop_i s = length cs"
      "mset cs + mset (temps s) + okv city (running s) = okv city (take (spawned s) w)"
    and n: "spawned s \<le> length w"
    by (rule invE)
  have "size (mset cs + mset (temps s) + okv city (running s)) = size (okv city (take (spawned s) w))"
    using cs(2) by simp
  moreover have "size (okv city (take (spawned s) w)) \<le> length (take (spawned s) w)"
    using size_okv_bad [of city "take (spawned s) w"] by linarith
  ultimately show ?thesis
    using cs(1) n by simp
qed

lemma inv_RecvTemp:
  assumes "inv w city s" and "step w city RecvTemp s = Some s'"
  shows "inv w city s'"
proof -
  from assms(2) obtain temp q where tq: "temps s = temp # q" and n: "spawned s = length w"
    and r: "ret s = None"
    and s': "s' = s\<lparr>temps := q, sum_acc := fadd (sum_acc s) temp, loop_i := Suc (loop_i s)\<rparr>"
    by (auto split: if_splits list.splits)
  from assms(1) obtain cs where cs: "sum_acc s = foldl fadd (Fin 0) cs" "loop_i s = length cs"
      "mset cs + mset (temps s) + okv city (running s) = okv city (take (spawned s) w)"
    and b: "mset (errs s) + returned_err s + bad city (running s) = bad city (take (spawned s) w)"
    by (rule invE)
  have "mset (cs @ [temp]) + mset (temps s') + okv city (running s') = okv city (take (spawned s') w)"
    using cs(3) by (simp add: s' tq)
  moreover have "mset (errs s') + returned_err s' + bad city (running s') = bad city (take (spawned s') w)"
    using b by (simp add: s' returned_err_def)
  moreover have "sum_acc s' = foldl fadd (Fin 0) (cs @ [temp])" "loop_i s' = length (cs @ [temp])"
    using cs by (simp_all add: s')
  moreover have "spawned s' \<le> length w" using n by (simp add: s')
  moreover have "0 < loop_i s' \<longrightarrow> spawned s' = length w" using n by (simp add: s')
  moreover have "ret_ok w s'" using r by (simp add: ret_ok_def s')
  ultimately show ?thesis by (rule invI)
qed

lemma inv_RecvErr:
  assumes "inv w city s" and "step w city RecvErr s = Some s'"
  shows "inv w city s'"
proof -
  from assms(2) obtain err q where eq: "errs s = err # q" and n: "spawned s = length w"
    and r: "ret s = None"
    and s': "s' = s\<lparr>errs := q, ret := Some (Fin 0, err)\<rparr>"
    by (auto split: if_splits list.splits)
  from assms(1) obtain cs where cs: "sum_acc s = foldl fadd (Fin 0) cs" "loop_i s = length cs"
      "mset cs + mset (temps s) + okv city (running s) = okv city (take (spawned s) w)"
    and b: "mset (errs s) + returned_err s + bad city (running s) = bad city (take (spawned s) w)"
    by (rule invE)
  have "err \<in># bad city (take (spawned s) w)"
    using b [symmetric] by (simp add: eq)
  then have ne: "err \<noteq> None" by (rule bad_not_None)
  have "mset cs + mset (temps s') + okv city (running s') = okv city (take (spawned s') w)"
    using cs(3) by (simp add: s')
  moreover have "mset (errs s') + returned_err s' + bad city (running s') = bad city (take (spawned s') w)"
    using b r ne by (auto simp: s' eq returned_err_def)
  moreover have "sum_acc s' = foldl fadd (Fin 0) cs" "loop_i s' = length cs"
    using cs by (simp_all add: s')
  moreover have "spawned s' \<le> length w" using n by (simp add: s')
  moreover have "0 < loop_i s' \<longrightarrow> spawned s' = length w" using n by (simp add: s')
  moreover have "ret_ok w s'" using n ne by (auto simp: ret_ok_def s')
  ultimately show ?thesis by (rule invI)
qed

lemma inv_Return:
  assumes "inv w city s" and "step w city Return s = Some s'"
  shows "inv w city s'"
proof -
  from assms(2) have i: "\<not> loop_i s < length w" and n: "spawned s = length w"
    and r: "ret s = None"
    and s': "s' = s\<lparr>ret := Some (fdiv (sum_acc s) (float64_of_nat (length w)), None)\<rparr>"
    by (auto split: if_splits)
  from assms(1) obtain cs where cs: "sum_acc s = foldl fadd (Fin 0) cs" "loop_i s = length cs"
      "mset cs + mset (temps s) + okv city (running s) = okv city (take (spawned s) w)"
    and b: "mset (errs s) + returned_err s + bad city (running s) = bad city (take (spawned s) w)"
    by (rule invE)
  have le: "loop_i s \<le> length w"
    using inv_loop_i_le [OF assms(1)] n by simp
  have "mset cs + mset (temps s') + okv city (running s') = okv city (take (spawned s') w)"
    using cs(3) by (simp add: s')
  moreover have "mset (errs s') + returned_err s' + bad city (running s') = bad city (take (spawned s') w)"
    using b r by (simp add: s' returned_err_def)
  moreover have "sum_acc s' = foldl fadd (Fin 0) cs" "loop_i s' = length cs"
    using cs by (simp_all add: s')
  moreover have "spawned s' \<le> length w" using n by (simp add: s')
  moreover have "0 < loop_i s' \<longrightarrow> spawned s' = length w" using n by (simp add: s')
  moreover have "ret_ok w s'" using n i le by (simp add: ret_ok_def s')
  ultimately show ?thesis by (rule invI)
qed

lemma inv_step:
  assumes "inv w city s" and "step w city e s = Some s'"
  shows "inv w city s'"
proof (cases e)
  case Spawn
  with assms show ?thesis by (simp only: inv_Spawn)
next
  case (Finish k)
  with assms show ?thesis by (simp only: inv_Finish)
next
  case RecvTemp
  with assms show ?thesis by (simp only: inv_RecvTemp)
next
  case RecvErr
  with assms show ?thesis by (simp only: inv_RecvErr)
next
  case Return
  with assms show ?thesis by (simp only: inv_Return)
qed

lemma inv_exec:
  "inv w city s \<Longrightarrow> exec w city es s = Some s' \<Longrightarrow> inv w city s'"
proof (induction es arbitrary: s)
  case Nil
  then show ?case by simp
next
  case (Cons e es)
  from Cons.prems(2) obtain s1 where s1: "step w city e s = Some s1" "exec w city es s1 = Some s'"
    by (auto split: option.splits)
  from Cons.prems(1) s1(1) have "inv w city s1" by (rule inv_step)
  then show ?case using s1(2) by (rule Cons.IH)
qed

lemma inv_reachable: "exec w city es init_state = Some s \<Longrightarrow> inv w city s"
  using inv_init by (rule inv_exec)

lemma inv_count:
  assumes "inv w city s"
  shows "loop_i s + length (temps s) + length (errs s) + length (running s)
           + size (returned_err s) = spawned s"
proof -
  from assms obtain cs where cs: "loop_i s = length cs"
      "mset cs + mset (temps s) + okv city (running s) = okv city (take (spawned s) w)"
    and b: "mset (errs s) + returned_err s + bad city (running s) = bad city (take (spawned s) w)"
    and n: "spawned s \<le> length w"
    by (rule invE)
  have "size (mset cs + mset (temps s) + okv city (running s))
          + size (mset (errs s) + returned_err s + bad city (running s))
        = size (okv city (take (spawned s) w)) + size (bad city (take (spawned s) w))"
    by (simp only: cs(2) b)
  then have "length cs + length (temps s) + length (errs s) + size (returned_err s)
          + (size (okv city (running s)) + size (bad city (running s)))
        = size (okv city (take (spawned s) w)) + size (bad city (take (spawned s) w))"
    by simp
  then show ?thesis
    using n by (simp add: size_okv_bad cs(1))
qed

lemma finish_enabled:
  assumes "inv w city s" and "k < length (running s)"
  shows "\<exists>s'. step w city (Finish k) s = Some s'"
proof -
  have "length (temps s) + length (errs s) + length (running s) \<le> spawned s"
    using inv_count [OF assms(1)] by linarith
  moreover have "spawned s \<le> length w"
    using assms(1) by (rule invE)
  ultimately have "length (temps s) < length w" "length (errs s) < length w"
    using assms(2) by linarith+
  then show ?thesis
    using assms(2) by (simp add: send_def split: prod.splits)
qed

lemma progress:
  assumes "inv w city s" and "ret s = None"
  shows "\<exists>e s'. step w city e s = Some s' \<and> (ret s' \<noteq> None \<or> todo w s' < todo w s)"
proof -
  have n: "spawned s \<le> length w" using assms(1) by (rule invE)
  have c: "loop_i s + length (temps s) + length (errs s) + length (running s) = spawned s"
    using inv_count [OF assms(1)] assms(2) by (simp add: returned_err_def)
  consider (spawn) "spawned s < length w"
    | (finish) "spawned s = length w" "running s \<noteq> []"
    | (recvt) "spawned s = length w" "running s = []" "loop_i s < length w" "temps s \<noteq> []"
    | (recve) "spawned s = length w" "running s = []" "loop_i s < length w" "temps s = []"
    | (return) "spawned s = length w" "running s = []" "\<not> loop_i s < length w"
    using n by linarith
  then show ?thesis
  proof cases
    case spawn
    let ?s' = "s\<lparr>running := running s @ [w ! spawned s], spawned := Suc (spawned s)\<rparr>"
    have "step w city Spawn s = Some ?s'" using spawn assms(2) by simp
    moreover have "todo w ?s' < todo w s" using spawn by (simp add: todo_def)
    ultimately show ?thesis by blast
  next
    case finish
    then have k: "0 < length (running s)" by simp
    from finish_enabled [OF assms(1) k] obtain s' where s': "step w city (Finish 0) s = Some s'"
      by blast
    then have "spawned s' = spawned s" "loop_i s' = loop_i s"
        "length (running s') < length (running s)"
      using k by (auto simp: drop_nth_def send_def split: if_splits prod.splits option.splits)
    then have "todo w s' < todo w s" by (simp add: todo_def)
    with s' show ?thesis by blast
  next
    case recvt
    then obtain temp q where tq: "temps s = temp # q" by (cases "temps s") auto
    let ?s' = "s\<lparr>temps := q, sum_acc := fadd (sum_acc s) temp, loop_i := Suc (loop_i s)\<rparr>"
    have "step w city RecvTemp s = Some ?s'" using recvt assms(2) tq by simp
    moreover have "todo w ?s' < todo w s" using recvt by (simp add: todo_def)
    ultimately show ?thesis by blast
  next
    case recve
    with c have "errs s \<noteq> []" by auto
    then obtain err q where eq: "errs s = err # q" by (cases "errs s") auto
    let ?s' = "s\<lparr>errs := q, ret := Some (Fin 0, err)\<rparr>"
    have "step w city RecvErr s = Some ?s'" using recve assms(2) eq by simp
    moreover have "ret ?s' \<noteq> None" by simp
    ultimately show ?thesis by blast
  next
    case return
    let ?s' = "s\<lparr>ret := Some (fdiv (sum_acc s) (float64_of_nat (length w)), None)\<rparr>"
    have "step w city Return s = Some ?s'" using return assms(2) by simp
    moreover have "ret ?s' \<noteq> None" by simp
    ultimately show ?thesis by blast
  qed
qed

lemma completes:
  "inv w city s \<Longrightarrow> \<exists>es s'. exec w city es s = Some s' \<and> ret s' \<noteq> None"
proof (induction "todo w s" arbitrary: s rule: less_induct)
  case less
  show ?case
  proof (cases "ret s = None")
    case False
    then have "exec w city [] s = Some s \<and> ret s \<noteq> None" by simp
    then show ?thesis by blast
  next
    case True
    from progress [OF less.prems True] obtain e s1 where
      e: "step w city e s = Some s1" and d: "ret s1 \<noteq> None \<or> todo w s1 < todo w s"
      by blast
    have i1: "inv w city s1" using less.prems e by (rule inv_step)
    show ?thesis
    proof (cases "ret s1 = None")
      case False
      with e have "exec w city [e] s = Some s1 \<and> ret s1 \<noteq> None" by simp
      then show ?thesis by blast
    next
      case True
      with d have "todo w s1 < todo w s" by simp
      from less.hyps [OF this i1] obtain es s' where
        "exec w city es s1 = Some s'" "ret s' \<noteq> None" by blast
      with e have "exec w city (e # es) s = Some s' \<and> ret s' \<noteq> None" by simp
      then show ?thesis by blast
    qed
  qed
qed

lemma exec_append:
  "exec w city (es @ es') s = (case exec w city es s of None \<Rightarrow> None | Some s1 \<Rightarrow> exec w city es' s1)"
  by (induction es arbitrary: s) (auto split: option.splits)

lemma ret_success:
  assumes "inv w city s" and "ret s = Some (v, None)"
  shows "(\<forall>p\<in>set w. snd (p city) = None) \<and>
         (\<exists>cs. mset cs = mset (map (\<lambda>p. fst (p city)) w) \<and>
               v = fdiv (foldl fadd (Fin 0) cs) (float64_of_nat (length w)))"
proof -
  from assms(1) obtain cs where cs: "sum_acc s = foldl fadd (Fin 0) cs" "loop_i s = length cs"
      "mset cs + mset (temps s) + okv city (running s) = okv city (take (spawned s) w)"
    and r: "ret_ok w s"
    by (rule invE)
  from r assms(2) have n: "spawned s = length w" and i: "loop_i s = length w"
    and v: "v = fdiv (sum_acc s) (float64_of_nat (length w))"
    by (simp_all add: ret_ok_def)
  have "size (mset cs + mset (temps s) + okv city (running s)) = size (okv city w)"
    using cs(3) n by simp
  then have sz: "length w + length (temps s) + size (okv city (running s)) = size (okv city w)"
    using cs(2) i by simp
  with size_okv_bad [of city w] have "size (bad city w) = 0" "length (temps s) = 0"
      "size (okv city (running s)) = 0"
    by linarith+
  then have b0: "bad city w = {#}" and m: "mset cs = okv city w"
    using cs(3) n by simp_all
  from b0 have all: "\<forall>p\<in>set w. snd (p city) = None"
    by (auto simp: bad_def filter_empty_conv)
  then have "filter (\<lambda>p. snd (p city) = None) w = w" by simp
  then have "okv city w = mset (map (\<lambda>p. fst (p city)) w)"
    by (simp add: okv_def)
  with m v cs(1) all show ?thesis by auto
qed

lemma ret_failure:
  assumes "inv w city s" and "ret s = Some (v, err)" and "err \<noteq> None"
  shows "v = Fin 0 \<and> (\<exists>p\<in>set w. snd (p city) = err)"
proof -
  have b: "mset (errs s) + returned_err s + bad city (running s) = bad city (take (spawned s) w)"
    using assms(1) by (rule invE)
  have r: "ret_ok w s"
    using assms(1) by (rule invE)
  from r assms(2,3) have n: "spawned s = length w" and v: "v = Fin 0"
    by (simp_all add: ret_ok_def)
  have "err \<in># returned_err s" using assms(2,3) by (simp add: returned_err_def)
  then have "err \<in># bad city w" using b [symmetric] n by simp
  then have "\<exists>p\<in>set w. snd (p city) = err" by (rule bad_from_provider)
  with v show ?thesis by simp
qed

section \<open>The empty provider set\<close>

text \<open>
  C3 (as stated, fails): with no provider the call is not rejected. The range loop and
  the collecting loop run zero times and the caller returns \<^verbatim>\<open>0.0 / float64(0)\<close>,
  a NaN, with a nil error.
\<close>

theorem empty_set_not_rejected:
  "result_of (exec [] '''' [Return] init_state) = Some (NaN, None)"
  by (simp add: result_of_def init_state_def fdiv_zero_zero float64_of_nat_0)

lemma step_empty:
  assumes "step [] city e s = Some s'" and "running s = []"
  shows "e = Return \<and> ret s = None \<and> spawned s = 0 \<and>
         s' = s\<lparr>ret := Some (fdiv (sum_acc s) (Fin 0), None)\<rparr>"
  using assms by (cases e) (auto simp: float64_of_nat_0 split: if_splits)

text \<open>
  C3 (amended): for the empty provider set the call starts no query and reports no
  error. Its only executions are the empty one and the single step in which the caller
  returns: the value is the NaN of the float64 division \<^verbatim>\<open>0.0 / float64(0)\<close>, which
  does not panic, and the error is nil.
\<close>

theorem empty_set_returns_NaN:
  assumes "exec [] city es init_state = Some s"
  shows "(es = [] \<and> s = init_state) \<or>
         (es = [Return] \<and> s = init_state\<lparr>ret := Some (NaN, None)\<rparr>)"
proof (cases es)
  case Nil
  with assms show ?thesis by simp
next
  case (Cons e es')
  with assms obtain s1 where s1: "step [] city e init_state = Some s1"
    and r: "exec [] city es' s1 = Some s"
    by (auto split: option.splits)
  have e: "e = Return" and s1': "s1 = init_state\<lparr>ret := Some (NaN, None)\<rparr>"
    using step_empty [OF s1] by (simp_all add: init_state_def fdiv_zero_zero)
  have "es' = []"
  proof (cases es')
    case Nil
    then show ?thesis .
  next
    case (Cons e' es'')
    with r obtain s2 where "step [] city e' s1 = Some s2"
      by (auto split: option.splits)
    then have "ret s1 = None"
      using step_empty [of city e' s1 s2] by (simp add: s1' init_state_def)
    then show ?thesis by (simp add: s1')
  qed
  with r e s1' Cons show ?thesis by simp
qed

theorem empty_set_returns_NaN_witness:
  "exec [] ''Oslo'' [Return] init_state = Some (init_state\<lparr>ret := Some (NaN, None)\<rparr>) \<and>
   spawned (init_state\<lparr>ret := Some (NaN, None)\<rparr>) = 0 \<and>
   running (init_state\<lparr>ret := Some (NaN, None)\<rparr>) = []"
proof -
  have h: "exec [] ''Oslo'' [Return] init_state = Some (init_state\<lparr>ret := Some (NaN, None)\<rparr>)"
    by (simp add: init_state_def fdiv_zero_zero float64_of_nat_0)
  from empty_set_returns_NaN [OF h] h show ?thesis
    by (simp add: init_state_def)
qed

section \<open>What the call returns\<close>

lemma step_after_return:
  assumes "ret s \<noteq> None" and "step w city e s = Some s'"
  shows "(\<exists>k. e = Finish k) \<and> ret s' = ret s \<and> loop_i s' = loop_i s \<and>
         sum_acc s' = sum_acc s \<and> spawned s' = spawned s"
  using assms
  by (cases e) (auto simp: send_def split: if_splits prod.splits option.splits)

lemma after_return:
  "ret s \<noteq> None \<Longrightarrow> exec w city es s = Some s' \<Longrightarrow>
     ret s' = ret s \<and> loop_i s' = loop_i s \<and> sum_acc s' = sum_acc s \<and>
     (\<forall>e\<in>set es. \<exists>k. e = Finish k)"
proof (induction es arbitrary: s)
  case Nil
  then show ?case by simp
next
  case (Cons e es)
  from Cons.prems(2) obtain s1 where s1: "step w city e s = Some s1" "exec w city es s1 = Some s'"
    by (auto split: option.splits)
  note st = step_after_return [OF Cons.prems(1) s1(1)]
  with Cons.prems(1) have "ret s1 \<noteq> None" by simp
  from Cons.IH [OF this s1(2)] st show ?case by auto
qed

lemma fadd_nat:
  assumes "a + n < 2 ^ 53"
  shows "fadd (Fin (of_nat a)) (Fin (of_nat n)) = Fin (of_nat (a + n))"
proof (cases "a = 0 \<or> n = 0")
  case True
  then show ?thesis
    by (auto simp: fadd_def isinf_def iszero_def zero64_def isneg_def)
next
  case False
  have "\<bar>int (a + n)\<bar> < 2 ^ 53"
    using assms by (metis abs_of_nat of_nat_less_numeral_power_cancel_iff)
  moreover have "int (a + n) \<noteq> 0" using False by simp
  ultimately have "round64 (of_int (int (a + n))) = Fin (of_int (int (a + n)))"
    by (intro round64_of_int)
  then show ?thesis
    using False by (simp add: fadd_def isinf_def iszero_def ratval_def)
qed

lemma foldl_fadd_nat:
  "a + sum_list ns < 2 ^ 53 \<Longrightarrow>
     foldl fadd (Fin (of_nat a)) (map (\<lambda>n. Fin (of_nat n)) ns) = Fin (of_nat (a + sum_list ns))"
proof (induction ns arbitrary: a)
  case Nil
  then show ?case by simp
next
  case (Cons n ns)
  from Cons.prems have "a + n < 2 ^ 53" by simp
  then have "fadd (Fin (of_nat a)) (Fin (of_nat n)) = Fin (of_nat (a + n))"
    by (rule fadd_nat)
  moreover from Cons.prems have "(a + n) + sum_list ns < 2 ^ 53" by (simp add: add.assoc)
  ultimately show ?case
    using Cons.IH [of "a + n"] by (simp add: add.assoc)
qed

lemma sum3:
  assumes "mset vs = {#Fin 20, Fin 22, Fin 24#}"
  shows "foldl fadd (Fin 0) vs = Fin 66"
proof -
  define f where "f v = nat \<lfloor>ratval v\<rfloor>" for v
  define ns where "ns = map f vs"
  have m: "mset vs = mset [Fin 20, Fin 22, Fin 24]"
    using assms by simp
  have "set vs = {Fin 20, Fin 22, Fin 24}"
    using mset_eq_setD [OF m] by simp
  then have "\<forall>v\<in>set vs. Fin (of_nat (f v)) = v"
    by (simp add: f_def ratval_def)
  then have vs: "map (\<lambda>n. Fin (of_nat n)) ns = vs"
    by (simp add: ns_def map_idI)
  have "mset ns = image_mset f (mset vs)"
    by (simp add: ns_def)
  also have "\<dots> = {#20, 22, 24#}"
    by (simp add: assms f_def ratval_def)
  finally have "sum_mset (mset ns) = 66" by simp
  then have sum: "sum_list ns = 66" by (simp add: sum_mset_sum_list)
  have "foldl fadd (Fin (of_nat 0)) (map (\<lambda>n. Fin (of_nat n)) ns) = Fin (of_nat (0 + sum_list ns))"
    by (rule foldl_fadd_nat) (simp add: sum)
  then show ?thesis by (simp add: vs sum)
qed

lemma mean3: "fdiv (Fin 66) (float64_of_nat 3) = Fin 22"
  by (simp add: float64_of_nat_exact fdiv_Fin round64_numeral)

lemma all_succeed_result:
  assumes "\<forall>p\<in>set w. snd (p city) = None"
    and "exec w city es init_state = Some s" and "ret s = Some r"
  shows "\<exists>vs. mset vs = mset (map (\<lambda>p. fst (p city)) w) \<and>
              r = (fdiv (foldl fadd (Fin 0) vs) (float64_of_nat (length w)), None)"
proof -
  have i: "inv w city s" using assms(2) by (rule inv_reachable)
  obtain v err where r: "r = (v, err)" by (cases r)
  have "err = None"
  proof (rule ccontr)
    assume "err \<noteq> None"
    with ret_failure [OF i] assms(3) r have "\<exists>p\<in>set w. snd (p city) = err" by simp
    with assms(1) \<open>err \<noteq> None\<close> show False by auto
  qed
  with ret_success [OF i, of v] assms(3) r show ?thesis by simp
qed

lemma can_complete:
  assumes "exec w city es init_state = Some s"
  shows "\<exists>es' s'. exec w city (es @ es') init_state = Some s' \<and> ret s' \<noteq> None"
proof -
  have "inv w city s" using assms by (rule inv_reachable)
  then obtain es' s' where "exec w city es' s = Some s'" "ret s' \<noteq> None"
    using completes by blast
  with assms have "exec w city (es @ es') init_state = Some s' \<and> ret s' \<noteq> None"
    by (simp add: exec_append)
  then show ?thesis by blast
qed

section \<open>Failures and the channels\<close>

lemma recv_err_enabled:
  assumes "inv w city s" and "spawned s = length w" and "ret s = None" and "errs s \<noteq> []"
  shows "\<exists>s'. step w city RecvErr s = Some s'"
proof -
  have "loop_i s + length (errs s) \<le> spawned s"
    using inv_count [OF assms(1)] by linarith
  moreover have "0 < length (errs s)" using assms(4) by simp
  ultimately have "loop_i s < length w" using assms(2) by linarith
  then show ?thesis
    using assms(2-4) by (cases "errs s") simp_all
qed

lemma recv_err_step:
  assumes "step w city RecvErr s = Some s'"
  shows "errs s \<noteq> [] \<and> ret s = None \<and> ret s' = Some (Fin 0, hd (errs s)) \<and>
         running s' = running s \<and> temps s' = temps s \<and> loop_i s' = loop_i s \<and>
         sum_acc s' = sum_acc s"
  using assms by (auto split: if_splits list.splits)

lemma some_failure_no_mean:
  assumes "inv w city s" and "\<exists>p\<in>set w. snd (p city) \<noteq> None" and "ret s = Some (v, err)"
  shows "err \<noteq> None"
proof
  assume "err = None"
  with ret_success [OF assms(1), of v] assms(3) have "\<forall>p\<in>set w. snd (p city) = None"
    by simp
  with assms(2) show False by simp
qed

text \<open>
  C2: in a state that an execution reaches, a failure waiting in the channel can be taken
  by the \<^verbatim>\<open>select\<close> whatever is still running; the step that takes it returns at once
  the pair of 0 and that failure and leaves the running goroutines and the other channel
  alone; afterwards the caller takes no step and its result, its counter and its sum
  never change, only goroutines finish. With a failing provider in the set no execution
  returns a mean.
\<close>

theorem first_failure_wins:
  assumes "exec w city es init_state = Some s"
  shows "(spawned s = length w \<and> ret s = None \<and> errs s \<noteq> [] \<longrightarrow>
            (\<exists>s'. step w city RecvErr s = Some s')) \<and>
         (\<forall>s'. step w city RecvErr s = Some s' \<longrightarrow>
            ret s' = Some (Fin 0, hd (errs s)) \<and> running s' = running s \<and>
            temps s' = temps s \<and> loop_i s' = loop_i s \<and> sum_acc s' = sum_acc s \<and>
            (\<forall>es' s''. exec w city es' s' = Some s'' \<longrightarrow>
               ret s'' = ret s' \<and> loop_i s'' = loop_i s' \<and> sum_acc s'' = sum_acc s' \<and>
               (\<forall>e\<in>set es'. \<exists>k. e = Finish k))) \<and>
         ((\<exists>p\<in>set w. snd (p city) \<noteq> None) \<longrightarrow>
            (\<forall>v err. ret s = Some (v, err) \<longrightarrow> err \<noteq> None))"
proof -
  have i: "inv w city s" using assms by (rule inv_reachable)
  have a: "spawned s = length w \<and> ret s = None \<and> errs s \<noteq> [] \<longrightarrow>
      (\<exists>s'. step w city RecvErr s = Some s')"
    using recv_err_enabled [OF i] by blast
  have b: "ret s' = Some (Fin 0, hd (errs s)) \<and> running s' = running s \<and>
      temps s' = temps s \<and> loop_i s' = loop_i s \<and> sum_acc s' = sum_acc s \<and>
      (\<forall>es' s''. exec w city es' s' = Some s'' \<longrightarrow>
         ret s'' = ret s' \<and> loop_i s'' = loop_i s' \<and> sum_acc s'' = sum_acc s' \<and>
         (\<forall>e\<in>set es'. \<exists>k. e = Finish k))"
    if st: "step w city RecvErr s = Some s'" for s'
  proof -
    note r = recv_err_step [OF st]
    then have "ret s' \<noteq> None" by simp
    then have "\<forall>es' s''. exec w city es' s' = Some s'' \<longrightarrow>
         ret s'' = ret s' \<and> loop_i s'' = loop_i s' \<and> sum_acc s'' = sum_acc s' \<and>
         (\<forall>e\<in>set es'. \<exists>k. e = Finish k)"
      using after_return by blast
    with r show ?thesis by blast
  qed
  have c: "(\<exists>p\<in>set w. snd (p city) \<noteq> None) \<longrightarrow>
      (\<forall>v err. ret s = Some (v, err) \<longrightarrow> err \<noteq> None)"
    using some_failure_no_mean [OF i] by blast
  from a b c show ?thesis by blast
qed

theorem first_failure_wins_witness:
  "exec [stub (Fin 20, None), stub (Fin 0, Some (Error ''timeout'')), stub (Fin 24, None)]
     ''Oslo'' [Spawn, Spawn, Spawn, Finish 1] init_state
     = Some \<lparr>spawned = 3, running = [stub (Fin 20, None), stub (Fin 24, None)], temps = [],
             errs = [Some (Error ''timeout'')], loop_i = 0, sum_acc = Fin 0, ret = None\<rparr> \<and>
   result_of (exec [stub (Fin 20, None), stub (Fin 0, Some (Error ''timeout'')), stub (Fin 24, None)]
     ''Oslo'' [Spawn, Spawn, Spawn, Finish 1, RecvErr] init_state)
     = Some (Fin 0, Some (Error ''timeout'')) \<and>
   result_of (exec [stub (Fin 20, None), stub (Fin 0, Some (Error ''timeout'')), stub (Fin 24, None)]
     ''Oslo'' [Spawn, Spawn, Spawn, Finish 1, RecvErr, Finish 1, Finish 0] init_state)
     = Some (Fin 0, Some (Error ''timeout''))"
proof -
  let ?w = "[stub (Fin 20, None), stub (Fin 0, Some (Error ''timeout'')), stub (Fin 24, None)]"
  let ?s = "\<lparr>spawned = 3, running = [stub (Fin 20, None), stub (Fin 24, None)], temps = [],
             errs = [Some (Error ''timeout'')], loop_i = 0, sum_acc = Fin 0, ret = None\<rparr>"
  let ?s' = "?s\<lparr>errs := [], ret := Some (Fin 0, Some (Error ''timeout''))\<rparr>"
  have h: "exec ?w ''Oslo'' [Spawn, Spawn, Spawn, Finish 1] init_state = Some ?s"
    by (simp add: init_state_def stub_def send_def drop_nth_def)
  have st: "step ?w ''Oslo'' RecvErr ?s = Some ?s'"
    by simp
  obtain s'' where e: "exec ?w ''Oslo'' [Finish 1, Finish 0] ?s' = Some s''"
    by (simp add: stub_def send_def drop_nth_def)
  from first_failure_wins [OF h] st e
  have "ret ?s' = Some (Fin 0, hd (errs ?s))" and "ret s'' = ret ?s'"
    by blast+
  then have "ret ?s' = Some (Fin 0, Some (Error ''timeout''))"
    and "ret s'' = Some (Fin 0, Some (Error ''timeout''))"
    by simp_all
  moreover have "exec ?w ''Oslo'' [Spawn, Spawn, Spawn, Finish 1, RecvErr] init_state = Some ?s'"
    using h st exec_append [of ?w "''Oslo''" "[Spawn, Spawn, Spawn, Finish 1]" "[RecvErr]" init_state]
    by simp
  moreover have "exec ?w ''Oslo'' [Spawn, Spawn, Spawn, Finish 1, RecvErr, Finish 1, Finish 0] init_state
      = Some s''"
    using h st e
      exec_append [of ?w "''Oslo''" "[Spawn, Spawn, Spawn, Finish 1]" "[RecvErr, Finish 1, Finish 0]" init_state]
    by simp
  ultimately show ?thesis
    using h by (simp add: result_of_def)
qed

lemma step_sets_ret:
  assumes "ret s = None" and "step w city e s = Some s'" and "ret s' = Some (v, err)"
  shows "(e = RecvErr \<and> errs s \<noteq> [] \<and> v = Fin 0 \<and> err = hd (errs s)) \<or> (e = Return \<and> err = None)"
  using assms
  by (cases e) (auto simp: send_def split: if_splits prod.splits option.splits list.splits)

lemma failure_split:
  "ret s0 = None \<Longrightarrow> exec w city es s0 = Some s \<Longrightarrow> ret s = Some (v, err) \<Longrightarrow> err \<noteq> None \<Longrightarrow>
     \<exists>es1 es2 s1. es = es1 @ RecvErr # es2 \<and> exec w city es1 s0 = Some s1 \<and> ret s1 = None \<and>
        errs s1 \<noteq> [] \<and> err = hd (errs s1) \<and> (\<forall>e\<in>set es2. \<exists>k. e = Finish k)"
proof (induction es arbitrary: s0)
  case Nil
  then show ?case by simp
next
  case (Cons e es)
  from Cons.prems(2) obtain sa where sa: "step w city e s0 = Some sa" "exec w city es sa = Some s"
    by (auto split: option.splits)
  show ?case
  proof (cases "ret sa = None")
    case True
    from Cons.IH [OF True sa(2) Cons.prems(3,4)] obtain es1 es2 s1 where
      d: "es = es1 @ RecvErr # es2" "exec w city es1 sa = Some s1" "ret s1 = None"
         "errs s1 \<noteq> []" "err = hd (errs s1)" "\<forall>e\<in>set es2. \<exists>k. e = Finish k"
      by blast
    have "e # es = (e # es1) @ RecvErr # es2" using d(1) by simp
    moreover have "exec w city (e # es1) s0 = Some s1" using sa(1) d(2) by simp
    ultimately show ?thesis using d(3-6) by blast
  next
    case False
    from after_return [OF False sa(2)] have r: "ret s = ret sa"
      and f: "\<forall>e\<in>set es. \<exists>k. e = Finish k"
      by simp_all
    with Cons.prems(3) have "ret sa = Some (v, err)" by simp
    from step_sets_ret [OF Cons.prems(1) sa(1) this] Cons.prems(4)
    have "e = RecvErr" "errs s0 \<noteq> []" "err = hd (errs s0)" by auto
    moreover have "exec w city [] s0 = Some s0" by simp
    ultimately have "e # es = [] @ RecvErr # es \<and> exec w city [] s0 = Some s0 \<and> ret s0 = None \<and>
        errs s0 \<noteq> [] \<and> err = hd (errs s0) \<and> (\<forall>e\<in>set es. \<exists>k. e = Finish k)"
      using Cons.prems(1) f by simp
    then show ?thesis by blast
  qed
qed

lemma recv_err_returns:
  assumes "exec w city es s0 = Some s" and "RecvErr \<in> set es"
  shows "ret s \<noteq> None"
proof -
  from assms(2) obtain es1 es2 where es: "es = es1 @ RecvErr # es2"
    by (auto dest: split_list)
  with assms(1) obtain s1 s2 where "exec w city es1 s0 = Some s1"
    and st: "step w city RecvErr s1 = Some s2" and r: "exec w city es2 s2 = Some s"
    by (auto simp: exec_append split: option.splits)
  from recv_err_step [OF st] have "ret s2 \<noteq> None" by simp
  from after_return [OF this r] this show ?thesis by simp
qed

text \<open>
  C4: when the call returns a non-nil error, the value returned is 0 and the error is,
  unchanged, the answer of one of the providers; it was at the head of the channel of
  failures when the caller took it, no failure was taken before, and nothing but
  goroutines finishing happens afterwards. The failure branch never returns nil: what
  lies in the channel of failures is never nil.
\<close>

theorem failure_passthrough:
  assumes "exec w city es init_state = Some s"
  shows "(\<forall>e\<in>set (errs s). e \<noteq> None) \<and>
         (\<forall>v err. ret s = Some (v, err) \<longrightarrow> err \<noteq> None \<longrightarrow>
            v = Fin 0 \<and> (\<exists>p\<in>set w. snd (p city) = err) \<and>
            (\<exists>es1 es2 s1. es = es1 @ RecvErr # es2 \<and> exec w city es1 init_state = Some s1 \<and>
               RecvErr \<notin> set es1 \<and> errs s1 \<noteq> [] \<and> err = hd (errs s1) \<and>
               (\<forall>e\<in>set es2. \<exists>k. e = Finish k)))"
proof (intro conjI allI impI ballI)
  fix e
  assume e: "e \<in> set (errs s)"
  have "inv w city s" using assms by (rule inv_reachable)
  then have "mset (errs s) + returned_err s + bad city (running s) = bad city (take (spawned s) w)"
    by (rule invE)
  then have "e \<in># bad city (take (spawned s) w)"
    using e by (metis in_multiset_in_set union_iff)
  then show "e \<noteq> None" by (rule bad_not_None)
next
  fix v err
  assume r: "ret s = Some (v, err)" and ne: "err \<noteq> None"
  have i: "inv w city s" using assms by (rule inv_reachable)
  from ret_failure [OF i r ne] show "v = Fin 0" and "\<exists>p\<in>set w. snd (p city) = err"
    by simp_all
  have "ret init_state = None" by (simp add: init_state_def)
  from failure_split [OF this assms r ne] obtain es1 es2 s1 where
    d: "es = es1 @ RecvErr # es2" "exec w city es1 init_state = Some s1" "ret s1 = None"
       "errs s1 \<noteq> []" "err = hd (errs s1)" "\<forall>e\<in>set es2. \<exists>k. e = Finish k"
    by blast
  have "RecvErr \<notin> set es1"
    using recv_err_returns [OF d(2)] d(3) by blast
  with d show "\<exists>es1 es2 s1. es = es1 @ RecvErr # es2 \<and> exec w city es1 init_state = Some s1 \<and>
      RecvErr \<notin> set es1 \<and> errs s1 \<noteq> [] \<and> err = hd (errs s1) \<and> (\<forall>e\<in>set es2. \<exists>k. e = Finish k)"
    by blast
qed

theorem failure_passthrough_witness:
  "result_of (exec [stub (Fin 20, None), stub (Fin 7, Some (Error ''bad gateway''))] ''Oslo''
     [Spawn, Spawn, Finish 0, Finish 0, RecvTemp, RecvErr] init_state)
     = Some (Fin 0, Some (Error ''bad gateway'')) \<and>
   snd (stub (Fin 7, Some (Error ''bad gateway'')) ''Oslo'') = Some (Error ''bad gateway'')"
proof -
  let ?w = "[stub (Fin 20, None), stub (Fin 7, Some (Error ''bad gateway''))]"
  let ?es = "[Spawn, Spawn, Finish 0, Finish 0, RecvTemp, RecvErr]"
  obtain s where h: "exec ?w ''Oslo'' ?es init_state = Some s"
    and r: "ret s = Some (Fin 0, Some (Error ''bad gateway''))"
    by (simp add: init_state_def stub_def send_def drop_nth_def)
  from failure_passthrough [OF h] r have "\<exists>p\<in>set ?w. snd (p ''Oslo'') = Some (Error ''bad gateway'')"
    by blast
  then have "snd (stub (Fin 7, Some (Error ''bad gateway'')) ''Oslo'') = Some (Error ''bad gateway'')"
    by (simp add: stub_def)
  with h r show ?thesis by (simp add: result_of_def)
qed

text \<open>
  C8: both channels have the capacity \<^verbatim>\<open>len(w)\<close>, and in every state an execution
  reaches, also after the caller has returned, each running goroutine can finish: its
  send does not block. Finishing appends one value to exactly one of the two channels,
  takes nothing out of either, removes the goroutine and leaves the caller's variables
  alone; neither channel ever holds more than \<^verbatim>\<open>len(w)\<close> values.
\<close>

theorem producers_never_block:
  assumes "exec w city es init_state = Some s" and "k < length (running s)"
  shows "\<exists>s'. step w city (Finish k) s = Some s' \<and>
           running s' = drop_nth k (running s) \<and>
           (if snd ((running s ! k) city) = None
            then temps s' = temps s @ [fst ((running s ! k) city)] \<and> errs s' = errs s
            else errs s' = errs s @ [snd ((running s ! k) city)] \<and> temps s' = temps s) \<and>
           length (temps s') \<le> length w \<and> length (errs s') \<le> length w \<and>
           ret s' = ret s \<and> loop_i s' = loop_i s \<and> sum_acc s' = sum_acc s \<and>
           spawned s' = spawned s"
proof -
  have i: "inv w city s" using assms(1) by (rule inv_reachable)
  from finish_enabled [OF i assms(2)] obtain s' where s': "step w city (Finish k) s = Some s'"
    by blast
  have i': "inv w city s'" using i s' by (rule inv_step)
  have "length (temps s') + length (errs s') \<le> spawned s'"
    using inv_count [OF i'] by linarith
  moreover have "spawned s' \<le> length w" using i' by (rule invE)
  ultimately have "length (temps s') \<le> length w" "length (errs s') \<le> length w"
    by linarith+
  moreover have "running s' = drop_nth k (running s) \<and>
      (if snd ((running s ! k) city) = None
       then temps s' = temps s @ [fst ((running s ! k) city)] \<and> errs s' = errs s
       else errs s' = errs s @ [snd ((running s ! k) city)] \<and> temps s' = temps s) \<and>
      ret s' = ret s \<and> loop_i s' = loop_i s \<and> sum_acc s' = sum_acc s \<and> spawned s' = spawned s"
    using s' assms(2)
    by (auto simp: send_def split: if_splits prod.splits option.splits)
  ultimately show ?thesis using s' by simp
qed

theorem producers_never_block_witness:
  "exec [stub (Fin 20, None), stub (Fin 0, Some (Error ''timeout'')), stub (Fin 24, None)]
     ''Oslo'' [Spawn, Spawn, Spawn, Finish 1, RecvErr] init_state
     = Some \<lparr>spawned = 3, running = [stub (Fin 20, None), stub (Fin 24, None)], temps = [],
             errs = [], loop_i = 0, sum_acc = Fin 0,
             ret = Some (Fin 0, Some (Error ''timeout''))\<rparr> \<and>
   step [stub (Fin 20, None), stub (Fin 0, Some (Error ''timeout'')), stub (Fin 24, None)]
     ''Oslo'' (Finish 1)
     \<lparr>spawned = 3, running = [stub (Fin 20, None), stub (Fin 24, None)], temps = [],
      errs = [], loop_i = 0, sum_acc = Fin 0, ret = Some (Fin 0, Some (Error ''timeout''))\<rparr>
     = Some \<lparr>spawned = 3, running = [stub (Fin 20, None)], temps = [Fin 24],
             errs = [], loop_i = 0, sum_acc = Fin 0,
             ret = Some (Fin 0, Some (Error ''timeout''))\<rparr>"
proof -
  let ?w = "[stub (Fin 20, None), stub (Fin 0, Some (Error ''timeout'')), stub (Fin 24, None)]"
  let ?s = "\<lparr>spawned = 3, running = [stub (Fin 20, None), stub (Fin 24, None)], temps = [],
             errs = [], loop_i = 0, sum_acc = Fin 0,
             ret = Some (Fin 0, Some (Error ''timeout''))\<rparr>"
  have h: "exec ?w ''Oslo'' [Spawn, Spawn, Spawn, Finish 1, RecvErr] init_state = Some ?s"
    by (simp add: init_state_def stub_def send_def drop_nth_def)
  have k: "1 < length (running ?s)" by simp
  from producers_never_block [OF h k] obtain s' where
    "step ?w ''Oslo'' (Finish 1) ?s = Some s'" by blast
  then show ?thesis
    using h by (simp add: stub_def send_def drop_nth_def)
qed

section \<open>Every order of arrival happens\<close>

lemma spawn_all_from:
  "k + n \<le> length w \<Longrightarrow>
     exec w city (replicate n Spawn) (init_state\<lparr>spawned := k, running := take k w\<rparr>)
       = Some (init_state\<lparr>spawned := k + n, running := take (k + n) w\<rparr>)"
proof (induction n arbitrary: k)
  case 0
  then show ?case by simp
next
  case (Suc n)
  from Suc.prems have k: "k < length w" and le: "Suc k + n \<le> length w" by simp_all
  have "step w city Spawn (init_state\<lparr>spawned := k, running := take k w\<rparr>)
          = Some (init_state\<lparr>spawned := Suc k, running := take (Suc k) w\<rparr>)"
    using k by (simp add: init_state_def take_Suc_conv_app_nth)
  with Suc.IH [OF le] show ?case by simp
qed

lemma spawn_all:
  "exec w city (replicate (length w) Spawn) init_state
     = Some (init_state\<lparr>spawned := length w, running := w\<rparr>)"
  using spawn_all_from [of 0 "length w" w city] by (simp add: init_state_def)

lemma mset_map_drop_nth:
  assumes "k < length xs"
  shows "mset (map f (drop_nth k xs)) + {#f (xs ! k)#} = mset (map f xs)"
proof -
  have "mset (map f (drop_nth k xs)) + {#f (xs ! k)#}
          = mset (map f (take k xs @ xs ! k # drop (Suc k) xs))"
    by (simp add: drop_nth_def)
  also have "take k xs @ xs ! k # drop (Suc k) xs = xs"
    using assms by (rule id_take_nth_drop [symmetric])
  finally show ?thesis .
qed

lemma drain:
  "spawned s = length w \<Longrightarrow> ret s = None \<Longrightarrow> temps s = [] \<Longrightarrow>
   loop_i s + length (running s) = length w \<Longrightarrow>
   \<forall>p\<in>set (running s). snd (p city) = None \<Longrightarrow>
   mset vs = mset (map (\<lambda>p. fst (p city)) (running s)) \<Longrightarrow>
     \<exists>es s'. exec w city es s = Some s' \<and> spawned s' = length w \<and> ret s' = None \<and>
        running s' = [] \<and> sum_acc s' = foldl fadd (sum_acc s) vs \<and> loop_i s' = length w"
proof (induction vs arbitrary: s)
  case Nil
  then have "running s = []" by simp
  with Nil have "exec w city [] s = Some s \<and> spawned s = length w \<and> ret s = None \<and>
      running s = [] \<and> sum_acc s = foldl fadd (sum_acc s) [] \<and> loop_i s = length w"
    by simp
  then show ?case by blast
next
  case (Cons v vs)
  from Cons.prems(6) have "v \<in> set (map (\<lambda>p. fst (p city)) (running s))"
    by (metis list.set_intros(1) mset_eq_setD)
  then obtain k where k: "k < length (running s)" and v: "fst ((running s ! k) city) = v"
    by (auto simp: in_set_conv_nth)
  from k Cons.prems(5) have ok: "snd ((running s ! k) city) = None" by simp
  from k Cons.prems(4) have n: "0 < length w" and i: "loop_i s < length w" by linarith+
  define s1 where "s1 = s\<lparr>temps := [v], running := drop_nth k (running s)\<rparr>"
  define s2 where "s2 = s1\<lparr>temps := [], sum_acc := fadd (sum_acc s) v, loop_i := Suc (loop_i s)\<rparr>"
  have "(running s ! k) city = (v, None)"
    using ok v by (simp add: prod_eq_iff)
  then have st1: "step w city (Finish k) s = Some s1"
    using k n Cons.prems(3) by (simp add: s1_def send_def)
  have st2: "step w city RecvTemp s1 = Some s2"
    using Cons.prems(1,2) i by (simp add: s1_def s2_def)
  have len: "length (running s2) + 1 = length (running s)"
    using k by (simp add: s2_def s1_def drop_nth_def)
  have "mset (map (\<lambda>p. fst (p city)) (running s2)) + {#v#} = mset (map (\<lambda>p. fst (p city)) (running s))"
    using mset_map_drop_nth [OF k, of "\<lambda>p. fst (p city)"] v by (simp add: s2_def s1_def)
  with Cons.prems(6) have "add_mset v (mset vs)
      = add_mset v (mset (map (\<lambda>p. fst (p city)) (running s2)))"
    by simp
  then have m: "mset vs = mset (map (\<lambda>p. fst (p city)) (running s2))"
    by (simp only: add_mset_add_mset_same_iff)
  have sub: "set (running s2) \<subseteq> set (running s)"
    by (auto simp: s2_def s1_def drop_nth_def dest: in_set_takeD in_set_dropD)
  have "\<exists>es s'. exec w city es s2 = Some s' \<and> spawned s' = length w \<and> ret s' = None \<and>
        running s' = [] \<and> sum_acc s' = foldl fadd (sum_acc s2) vs \<and> loop_i s' = length w"
  proof (rule Cons.IH)
    show "spawned s2 = length w" using Cons.prems(1) by (simp add: s2_def s1_def)
    show "ret s2 = None" using Cons.prems(2) by (simp add: s2_def s1_def)
    show "temps s2 = []" by (simp add: s2_def)
    show "loop_i s2 + length (running s2) = length w"
      using Cons.prems(4) len by (simp add: s2_def)
    show "\<forall>p\<in>set (running s2). snd (p city) = None"
      using Cons.prems(5) sub by blast
    show "mset vs = mset (map (\<lambda>p. fst (p city)) (running s2))" by (rule m)
  qed
  then obtain es s' where e: "exec w city es s2 = Some s'" and p: "spawned s' = length w"
      "ret s' = None" "running s' = []" "sum_acc s' = foldl fadd (sum_acc s2) vs"
      "loop_i s' = length w"
    by blast
  have "exec w city (Finish k # RecvTemp # es) s = Some s'"
    using st1 st2 e by simp
  moreover have "sum_acc s' = foldl fadd (sum_acc s) (v # vs)"
    using p(4) by (simp add: s2_def)
  ultimately show ?case using p by blast
qed

lemma every_order_arrives:
  assumes "\<forall>p\<in>set w. snd (p city) = None"
    and "mset vs = mset (map (\<lambda>p. fst (p city)) w)"
  shows "\<exists>es s. exec w city es init_state = Some s \<and>
           ret s = Some (fdiv (foldl fadd (Fin 0) vs) (float64_of_nat (length w)), None)"
proof -
  let ?a = "init_state\<lparr>spawned := length w, running := w\<rparr>"
  have sp: "exec w city (replicate (length w) Spawn) init_state = Some ?a"
    by (rule spawn_all)
  have "\<exists>es s'. exec w city es ?a = Some s' \<and> spawned s' = length w \<and> ret s' = None \<and>
        running s' = [] \<and> sum_acc s' = foldl fadd (sum_acc ?a) vs \<and> loop_i s' = length w"
    by (rule drain) (simp_all add: init_state_def assms)
  then obtain es s' where e: "exec w city es ?a = Some s'" and p: "spawned s' = length w"
      "ret s' = None" "sum_acc s' = foldl fadd (Fin 0) vs" "loop_i s' = length w"
    by (auto simp: init_state_def)
  let ?s = "s'\<lparr>ret := Some (fdiv (sum_acc s') (float64_of_nat (length w)), None)\<rparr>"
  have r: "exec w city [Return] s' = Some ?s" using p by simp
  have "exec w city (es @ [Return]) ?a = Some ?s"
    by (simp only: exec_append e option.case r)
  then have "exec w city (replicate (length w) Spawn @ es @ [Return]) init_state = Some ?s"
    by (simp only: exec_append [of w city "replicate (length w) Spawn"] sp option.case)
  moreover have "ret ?s = Some (fdiv (foldl fadd (Fin 0) vs) (float64_of_nat (length w)), None)"
    using p(3) by simp
  ultimately show ?thesis by blast
qed

section \<open>One provider, and permuted providers\<close>

lemma float64_of_nat_1: "float64_of_nat (Suc 0) = Fin 1"
  using float64_of_nat_exact [of "Suc 0"] by simp

lemma valid64_zero: "valid64 (Fin 0)"
  by (simp add: valid64_def round64_def)

lemma single_success_value:
  assumes "valid64 v"
  shows "fdiv (fadd (Fin 0) v) (float64_of_nat (Suc 0)) = (if v = NZero then Fin 0 else v)"
proof -
  have "valid64 (if v = NZero then Fin 0 else v)"
    using assms by (simp add: valid64_zero)
  then show ?thesis
    by (simp only: fadd_zero_left float64_of_nat_1 fdiv_one)
qed

text \<open>
  C5 (as stated, fails): a provider that returns a value together with its error is not
  passed through. The call returns the error with the value 0, not the provider's 5.
\<close>

theorem single_provider_value_dropped:
  "result_of (exec [stub (Fin 5, Some (Error ''stale''))] ''Oslo''
     [Spawn, Finish 0, RecvErr] init_state) = Some (Fin 0, Some (Error ''stale'')) \<and>
   stub (Fin 5, Some (Error ''stale'')) ''Oslo'' = (Fin 5, Some (Error ''stale''))"
  by (simp add: result_of_def init_state_def stub_def send_def drop_nth_def)

text \<open>
  C5 (amended): with a single provider, whatever the interleaving, the call returns the
  provider's error unchanged. When the provider fails the value returned is 0, whatever
  value came with the error; when it succeeds with a float64 \<open>v\<close> the value returned is
  \<^verbatim>\<open>(0.0 + v) / float64(1)\<close>, which is \<open>v\<close> itself, and the positive zero for the negative
  zero. Every execution can be continued until the call returns.
\<close>

theorem single_provider:
  assumes "exec [p] city es init_state = Some s"
  shows "(\<forall>r. ret s = Some r \<longrightarrow>
            (snd (p city) \<noteq> None \<longrightarrow> r = (Fin 0, snd (p city))) \<and>
            (snd (p city) = None \<longrightarrow> valid64 (fst (p city)) \<longrightarrow>
               r = (if fst (p city) = NZero then Fin 0 else fst (p city), None))) \<and>
         (\<exists>es' s'. exec [p] city (es @ es') init_state = Some s' \<and> ret s' \<noteq> None)"
proof (intro conjI allI impI)
  fix r
  assume r: "ret s = Some r" and f: "snd (p city) \<noteq> None"
  have i: "inv [p] city s" using assms by (rule inv_reachable)
  obtain v err where ve: "r = (v, err)" by (cases r)
  have ne: "err \<noteq> None"
    using some_failure_no_mean [OF i, of v err] f r ve by simp
  from ret_failure [OF i _ ne, of v] r ve have "v = Fin 0" "err = snd (p city)"
    by simp_all
  with ve show "r = (Fin 0, snd (p city))" by simp
next
  fix r
  assume r: "ret s = Some r" and ok: "snd (p city) = None" and v: "valid64 (fst (p city))"
  have "\<forall>q\<in>set [p]. snd (q city) = None" using ok by simp
  from all_succeed_result [OF this assms r] obtain vs where
    vs: "mset vs = {#fst (p city)#}"
    and r': "r = (fdiv (foldl fadd (Fin 0) vs) (float64_of_nat (Suc 0)), None)"
    by auto
  from vs have "vs = [fst (p city)]" by simp
  with r' show "r = (if fst (p city) = NZero then Fin 0 else fst (p city), None)"
    by (simp add: single_success_value [OF v])
next
  from assms show "\<exists>es' s'. exec [p] city (es @ es') init_state = Some s' \<and> ret s' \<noteq> None"
    by (rule can_complete)
qed

theorem single_provider_witness:
  "result_of (exec [stub (Fin 5, Some (Error ''stale''))] ''Oslo''
     [Spawn, Finish 0, RecvErr] init_state) = Some (Fin 0, Some (Error ''stale'')) \<and>
   valid64 (Fin 21) \<and>
   result_of (exec [stub (Fin 21, None)] ''Oslo''
     [Spawn, Finish 0, RecvTemp, Return] init_state) = Some (Fin 21, None)"
proof -
  obtain s1 where h1: "exec [stub (Fin 5, Some (Error ''stale''))] ''Oslo''
      [Spawn, Finish 0, RecvErr] init_state = Some s1" and r1: "ret s1 \<noteq> None"
    by (simp add: init_state_def stub_def send_def drop_nth_def)
  obtain s2 where h2: "exec [stub (Fin 21, None)] ''Oslo''
      [Spawn, Finish 0, RecvTemp, Return] init_state = Some s2" and r2: "ret s2 \<noteq> None"
    by (simp add: init_state_def stub_def send_def drop_nth_def)
  have v: "valid64 (Fin 21)"
    by (simp add: valid64_def round64_numeral)
  from r1 obtain a where a: "ret s1 = Some a" by auto
  from r2 obtain b where b: "ret s2 = Some b" by auto
  from single_provider [OF h1] a have "a = (Fin 0, Some (Error ''stale''))"
    by (simp add: stub_def)
  moreover from single_provider [OF h2] b v have "b = (Fin 21, None)"
    by (simp add: stub_def)
  ultimately show ?thesis
    using h1 h2 a b v by (simp add: result_of_def)
qed

lemma exact_sum:
  assumes "mset vs = mset (map (\<lambda>n. Fin (of_nat n)) ns)" and "sum_list ns < 2 ^ 53"
  shows "foldl fadd (Fin 0) vs = Fin (of_nat (sum_list ns))"
proof -
  define f where "f v = nat \<lfloor>ratval v\<rfloor>" for v
  define ms where "ms = map f vs"
  have fg: "f (Fin (of_nat n)) = n" for n
    by (simp add: f_def ratval_def)
  have "set vs = set (map (\<lambda>n. Fin (of_nat n)) ns)"
    using assms(1) by (rule mset_eq_setD)
  then have "\<forall>v\<in>set vs. Fin (of_nat (f v)) = v"
    by (auto simp: fg)
  then have vs: "map (\<lambda>n. Fin (of_nat n)) ms = vs"
    by (simp add: ms_def map_idI)
  have "mset ms = image_mset f (mset vs)"
    by (simp add: ms_def)
  also have "\<dots> = mset ns"
    by (simp add: assms(1) multiset.map_comp comp_def fg)
  finally have "sum_mset (mset ms) = sum_mset (mset ns)" by simp
  then have sum: "sum_list ms = sum_list ns" by (simp add: sum_mset_sum_list)
  have "foldl fadd (Fin (of_nat 0)) (map (\<lambda>n. Fin (of_nat n)) ms) = Fin (of_nat (0 + sum_list ms))"
    by (rule foldl_fadd_nat) (use assms(2) in \<open>simp add: sum\<close>)
  then show ?thesis by (simp add: vs sum)
qed

text \<open>
  C6 (as stated, fails): float64 addition rounds, so the sum depends on the order in
  which the readings are added. With the same interleaving, the readings
  9007199254740992, 1, 1 and their permutation 1, 1, 9007199254740992 give two different
  means.
\<close>

theorem permuted_set_other_value:
  "result_of (exec [stub (Fin 9007199254740992, None), stub (Fin 1, None), stub (Fin 1, None)]
     ''Oslo''
     [Spawn, Spawn, Spawn, Finish 0, Finish 0, Finish 0, RecvTemp, RecvTemp, RecvTemp, Return]
     init_state) = Some (Fin (6004799503160661 / 2), None) \<and>
   result_of (exec [stub (Fin 1, None), stub (Fin 1, None), stub (Fin 9007199254740992, None)]
     ''Oslo''
     [Spawn, Spawn, Spawn, Finish 0, Finish 0, Finish 0, RecvTemp, RecvTemp, RecvTemp, Return]
     init_state) = Some (Fin (6004799503160663 / 2), None) \<and>
   mset [stub (Fin 1, None), stub (Fin 1, None), stub (Fin 9007199254740992, None)]
     = mset [stub (Fin 9007199254740992, None), stub (Fin 1, None), stub (Fin 1, None)] \<and>
   Fin (6004799503160661 / 2) \<noteq> Fin (6004799503160663 / 2)"
  by (simp add: result_of_def init_state_def stub_def send_def drop_nth_def
      fadd_zero_left fadd_Fin fdiv_Fin float64_of_nat_exact round64_numeral
      round64_2p53_1 round64_2p53_2 round64_2p53_div3 round64_2p53_2_div3)

text \<open>
  C6 (amended): when every provider succeeds, permuting the provider set does not change
  which values the call can return. On the permuted set as on the original one it
  returns a nil error and the float64 quotient by \<^verbatim>\<open>float64(N)\<close> of the sum of the same
  readings, added up in their order of arrival, and every such order can arrive. Where
  the float64 additions are exact, as for whole-number readings whose sum is below
  \<open>2 ^ 53\<close>, there is one such value, the same for every permutation and interleaving.
\<close>

theorem permuted_set_mean:
  assumes "mset w' = mset w" and "\<forall>p\<in>set w. snd (p city) = None"
  shows "(\<forall>es s r. exec w' city es init_state = Some s \<longrightarrow> ret s = Some r \<longrightarrow>
            (\<exists>vs. mset vs = mset (map (\<lambda>p. fst (p city)) w) \<and>
                  r = (fdiv (foldl fadd (Fin 0) vs) (float64_of_nat (length w)), None))) \<and>
         (\<forall>r. (\<exists>es s. exec w' city es init_state = Some s \<and> ret s = Some r) =
              (\<exists>es s. exec w city es init_state = Some s \<and> ret s = Some r)) \<and>
         (\<forall>ns. map (\<lambda>p. fst (p city)) w = map (\<lambda>n. Fin (of_nat n)) ns \<longrightarrow>
               sum_list ns < 2 ^ 53 \<longrightarrow>
            (\<forall>es s r. exec w' city es init_state = Some s \<longrightarrow> ret s = Some r \<longrightarrow>
               r = (fdiv (Fin (of_nat (sum_list ns))) (float64_of_nat (length w)), None)))"
proof -
  have set: "set w' = set w" using assms(1) by (rule mset_eq_setD)
  have len: "length w' = length w" using assms(1) by (rule mset_eq_length)
  have "mset (map (\<lambda>p. fst (p city)) w') = image_mset (\<lambda>p. fst (p city)) (mset w')"
    by simp
  then have m: "mset (map (\<lambda>p. fst (p city)) w') = mset (map (\<lambda>p. fst (p city)) w)"
    by (simp add: assms(1))
  have all: "\<forall>p\<in>set w'. snd (p city) = None" using assms(2) set by simp
  have a: "\<exists>vs. mset vs = mset (map (\<lambda>p. fst (p city)) w) \<and>
      r = (fdiv (foldl fadd (Fin 0) vs) (float64_of_nat (length w)), None)"
    if "exec w' city es init_state = Some s" "ret s = Some r" for es s r
    using all_succeed_result [OF all that] m len by simp
  have c1: "\<exists>es s. exec w city es init_state = Some s \<and> ret s = Some r"
    if "exec w' city es init_state = Some s" "ret s = Some r" for es s r
  proof -
    from a [OF that] obtain vs where "mset vs = mset (map (\<lambda>p. fst (p city)) w)"
      and "r = (fdiv (foldl fadd (Fin 0) vs) (float64_of_nat (length w)), None)"
      by blast
    with every_order_arrives [OF assms(2), of vs] show ?thesis by simp
  qed
  have c2: "\<exists>es s. exec w' city es init_state = Some s \<and> ret s = Some r"
    if "exec w city es init_state = Some s" "ret s = Some r" for es s r
  proof -
    from all_succeed_result [OF assms(2) that] obtain vs where
      "mset vs = mset (map (\<lambda>p. fst (p city)) w')"
      and "r = (fdiv (foldl fadd (Fin 0) vs) (float64_of_nat (length w')), None)"
      using m len by auto
    with every_order_arrives [OF all, of vs] show ?thesis by simp
  qed
  have c: "(\<exists>es s. exec w' city es init_state = Some s \<and> ret s = Some r) =
      (\<exists>es s. exec w city es init_state = Some s \<and> ret s = Some r)" for r
    using c1 c2 by blast
  have b: "r = (fdiv (Fin (of_nat (sum_list ns))) (float64_of_nat (length w)), None)"
    if ns: "map (\<lambda>p. fst (p city)) w = map (\<lambda>n. Fin (of_nat n)) ns" "sum_list ns < 2 ^ 53"
      and ex: "exec w' city es init_state = Some s" "ret s = Some r" for ns es s r
  proof -
    from a [OF ex] obtain vs where vs: "mset vs = mset (map (\<lambda>p. fst (p city)) w)"
      and r: "r = (fdiv (foldl fadd (Fin 0) vs) (float64_of_nat (length w)), None)"
      by blast
    from vs ns(1) have "mset vs = mset (map (\<lambda>n. Fin (of_nat n)) ns)" by simp
    then have "foldl fadd (Fin 0) vs = Fin (of_nat (sum_list ns))"
      using ns(2) by (rule exact_sum)
    with r show ?thesis by simp
  qed
  from a b c show ?thesis by blast
qed

theorem permuted_set_mean_witness:
  "mset [stub (Fin 24, None), stub (Fin 20, None), stub (Fin 22, None)]
     = mset [stub (Fin 20, None), stub (Fin 22, None), stub (Fin 24, None)] \<and>
   result_of (exec [stub (Fin 24, None), stub (Fin 20, None), stub (Fin 22, None)] ''Oslo''
     [Spawn, Spawn, Finish 1, Spawn, Finish 1, Finish 0, RecvTemp, RecvTemp, RecvTemp, Return]
     init_state) = Some (Fin 22, None)"
proof -
  let ?w = "[stub (Fin 20, None), stub (Fin 22, None), stub (Fin 24, None)]"
  let ?w' = "[stub (Fin 24, None), stub (Fin 20, None), stub (Fin 22, None)]"
  let ?es = "[Spawn, Spawn, Finish 1, Spawn, Finish 1, Finish 0, RecvTemp, RecvTemp, RecvTemp, Return]"
  have p: "mset ?w' = mset ?w" by simp
  have h: "\<forall>p\<in>set ?w. snd (p ''Oslo'') = None" by (simp add: stub_def)
  have ns: "map (\<lambda>p. fst (p ''Oslo'')) ?w = map (\<lambda>n. Fin (of_nat n)) [20, 22, 24]"
    by (simp add: stub_def)
  have lt: "sum_list [20, 22, 24] < (2::nat) ^ 53" by simp
  obtain s where s: "exec ?w' ''Oslo'' ?es init_state = Some s" and r: "ret s \<noteq> None"
    by (simp add: init_state_def stub_def send_def drop_nth_def)
  from r obtain r' where r': "ret s = Some r'" by auto
  from permuted_set_mean [OF p h] ns lt s r'
  have "r' = (fdiv (Fin (of_nat (sum_list [20, 22, 24]))) (float64_of_nat (length ?w)), None)"
    by blast
  then have "r' = (Fin 22, None)"
    by (simp add: float64_of_nat_exact fdiv_Fin round64_numeral)
  with s r' p show ?thesis by (simp add: result_of_def)
qed

section \<open>The providers and the handlers\<close>

lemma coordinates_err: "snd (openWeatherMap_coordinates env city) = None"
  by (simp add: openWeatherMap_coordinates_def Let_def split: prod.splits)

lemma forecastIo_ignores_lookup:
  "forecastIo_temperature env apiKey city
     = forecastIo_query env apiKey (fst (openWeatherMap_coordinates env city))"
  using coordinates_err [of env city]
  by (cases "openWeatherMap_coordinates env city") (simp add: forecastIo_temperature_def)

text \<open>
  C9: \<^verbatim>\<open>openWeatherMap.coordinates\<close> returns a nil error on every path; when the request
  or the decoding fails it returns the zero \<^verbatim>\<open>Coord\<close>. So \<^verbatim>\<open>forecastIo.temperature\<close>
  never leaves through its first error check: its result is always that of the forecast
  query for the coordinates it was given, which after a failed lookup are (0, 0).
\<close>

theorem coordinates_never_fails:
  "snd (openWeatherMap_coordinates env city) = None \<and>
   (snd (http_Get env (''http://api.openweathermap.org/data/2.5/weather?q='' @ city)) \<noteq> None \<or>
    snd (json_Decode env
          (fst (http_Get env (''http://api.openweathermap.org/data/2.5/weather?q='' @ city)))) \<noteq> None
    \<longrightarrow> fst (openWeatherMap_coordinates env city) = \<lparr>Lon = Fin 0, Lat = Fin 0\<rparr> \<and>
        forecastIo_temperature env apiKey city
          = forecastIo_query env apiKey \<lparr>Lon = Fin 0, Lat = Fin 0\<rparr>) \<and>
   forecastIo_temperature env apiKey city
     = forecastIo_query env apiKey (fst (openWeatherMap_coordinates env city))"
proof -
  have "fst (openWeatherMap_coordinates env city) = \<lparr>Lon = Fin 0, Lat = Fin 0\<rparr>"
    if "snd (http_Get env (''http://api.openweathermap.org/data/2.5/weather?q='' @ city)) \<noteq> None \<or>
        snd (json_Decode env
          (fst (http_Get env (''http://api.openweathermap.org/data/2.5/weather?q='' @ city)))) \<noteq> None"
    using that by (auto simp: openWeatherMap_coordinates_def Let_def split: prod.splits)
  then show ?thesis
    by (simp add: coordinates_err forecastIo_ignores_lookup)
qed

lemma test_world_simps:
  "http_Get test_world = test_http"
  "json_Decode test_world body = (test_fields body, None)"
  "FormatFloat test_world = test_format"
  by (simp_all add: test_world_def)

lemma fneg_Fin: "x \<noteq> 0 \<Longrightarrow> fneg (Fin x) = Fin (- x)"
  by (simp add: fneg_def)

lemma fmul_Fin:
  "x \<noteq> 0 \<Longrightarrow> y \<noteq> 0 \<Longrightarrow> fmul (Fin x) (Fin y) = round64 (x * y)"
  by (simp add: fmul_def isinf_def iszero_def ratval_def)

lemma quantum_273_15: "quantum (5463 / 20) = - 44"
  by (simp add: quantum_def ilog2_def floor_rat_numeral compute_bitlen)

lemma round64_273_15: "round64 (5463 / 20) = Fin (2402652809016115 / 8796093022208)"
  by (simp add: round64_def quantum_273_15 round_even_def Let_def power_int_minus floor_rat_numeral)

lemma quantum_300_minus: "quantum (236175097646285 / 8796093022208) = - 48"
  by (simp add: quantum_def ilog2_def floor_rat_numeral compute_bitlen)

lemma round64_300_minus:
  "round64 (236175097646285 / 8796093022208) = Fin (236175097646285 / 8796093022208)"
  by (simp add: round64_def quantum_300_minus round_even_def Let_def power_int_minus floor_rat_numeral)

lemma kelvin_300: "fsub (Fin 300) (round64 (27315 / 100)) = Fin (236175097646285 / 8796093022208)"
  by (simp add: fsub_def round64_273_15 fneg_Fin fadd_Fin round64_300_minus)

lemma fahrenheit_50: "FahrenheitToCelsius (Fin 50) = Fin 10"
  by (simp add: FahrenheitToCelsius_def fsub_def fneg_Fin fadd_Fin fmul_Fin fdiv_Fin round64_numeral)

lemma fahrenheit_86: "FahrenheitToCelsius (Fin 86) = Fin 30"
  by (simp add: FahrenheitToCelsius_def fsub_def fneg_Fin fadd_Fin fmul_Fin fdiv_Fin round64_numeral)

theorem coordinates_never_fails_witness:
  "snd (http_Get test_world ''http://api.openweathermap.org/data/2.5/weather?q=Atlantis'')
     = Some (Error ''no such host'') \<and>
   openWeatherMap_coordinates test_world ''Atlantis'' = (\<lparr>Lon = Fin 0, Lat = Fin 0\<rparr>, None) \<and>
   forecastIo_url test_world ''k'' \<lparr>Lon = Fin 0, Lat = Fin 0\<rparr>
     = ''https://api.forecast.io/forecast/k/0.00,0.00'' \<and>
   forecastIo_temperature test_world ''k'' ''Atlantis'' = (Fin 30, None)"
proof -
  have f: "snd (http_Get test_world (''http://api.openweathermap.org/data/2.5/weather?q='' @ ''Atlantis''))
      = Some (Error ''no such host'')"
    by (simp add: test_world_simps test_http_def)
  have u: "forecastIo_url test_world ''k'' \<lparr>Lon = Fin 0, Lat = Fin 0\<rparr>
      = ''https://api.forecast.io/forecast/k/0.00,0.00''"
    by (simp add: forecastIo_url_def FloatToString_def test_world_simps test_format_def)
  have q: "forecastIo_query test_world ''k'' \<lparr>Lon = Fin 0, Lat = Fin 0\<rparr> = (Fin 30, None)"
    by (simp add: forecastIo_query_def u fahrenheit_86)
       (simp add: test_world_simps test_http_def test_fields_def fahrenheit_86)
  from coordinates_never_fails [of test_world "''Atlantis''" "''k''"] f
  have "snd (openWeatherMap_coordinates test_world ''Atlantis'') = None"
    and "fst (openWeatherMap_coordinates test_world ''Atlantis'') = \<lparr>Lon = Fin 0, Lat = Fin 0\<rparr>"
    and "forecastIo_temperature test_world ''k'' ''Atlantis''
          = forecastIo_query test_world ''k'' \<lparr>Lon = Fin 0, Lat = Fin 0\<rparr>"
    by simp_all
  with f u q show ?thesis
    by (simp add: prod_eq_iff)
qed

text \<open>
  C7: when its request and the decoding succeed, \<^verbatim>\<open>openWeatherMap\<close> returns the reading
  at \<^verbatim>\<open>main.temp\<close> minus the float64 nearest to 273.15, \<^verbatim>\<open>forecastIo\<close> returns the reading
  \<open>f\<close> at \<^verbatim>\<open>currently.temperature\<close> as \<^verbatim>\<open>(f - 32) * 5 / 9\<close>, and \<^verbatim>\<open>weatherUnderground\<close>
  returns the reading at \<^verbatim>\<open>current_observation.temp_c\<close> unchanged; each with a nil error,
  all operations being float64 operations.
\<close>

theorem providers_normalise_to_celsius:
  "(http_Get env (''http://api.openweathermap.org/data/2.5/weather?q='' @ city) = (resp, None) \<longrightarrow>
      json_Decode env resp = (d, None) \<longrightarrow>
      openWeatherMap_temperature env city
        = (fsub (d [''main'', ''temp'']) (round64 (27315 / 100)), None)) \<and>
   (http_Get env (forecastIo_url env apiKey (fst (openWeatherMap_coordinates env city)))
        = (resp', None) \<longrightarrow>
      json_Decode env resp' = (d', None) \<longrightarrow>
      forecastIo_temperature env apiKey city
        = (fdiv (fmul (fsub (d' [''currently'', ''temperature'']) (Fin 32)) (Fin 5)) (Fin 9), None)) \<and>
   (http_Get env (''http://api.wunderground.com/api/'' @ apiKey' @ ''/conditions/q/'' @ city @ ''.json'')
        = (resp'', None) \<longrightarrow>
      json_Decode env resp'' = (d'', None) \<longrightarrow>
      weatherUnderground_temperature env apiKey' city
        = (d'' [''current_observation'', ''temp_c''], None))"
  by (simp add: openWeatherMap_temperature_def weatherUnderground_temperature_def
      forecastIo_ignores_lookup forecastIo_query_def FahrenheitToCelsius_def)

theorem providers_normalise_to_celsius_witness:
  "openWeatherMap_temperature test_world ''Oslo'' = (Fin (236175097646285 / 8796093022208), None) \<and>
   forecastIo_temperature test_world ''k'' ''Oslo'' = (Fin 10, None) \<and>
   weatherUnderground_temperature test_world ''k'' ''Oslo'' = (Fin 21, None)"
proof -
  have c: "openWeatherMap_coordinates test_world ''Oslo'' = (\<lparr>Lon = Fin (43 / 4), Lat = Fin (119 / 2)\<rparr>, None)"
    by (simp add: openWeatherMap_coordinates_def test_world_simps test_http_def test_fields_def)
  have u: "forecastIo_url test_world ''k'' (fst (openWeatherMap_coordinates test_world ''Oslo''))
      = ''https://api.forecast.io/forecast/k/59.50,10.75''"
    by (simp add: c forecastIo_url_def FloatToString_def test_world_simps test_format_def)
  have h1: "http_Get test_world (''http://api.openweathermap.org/data/2.5/weather?q='' @ ''Oslo'')
      = (''owm'', None)"
    by (simp add: test_world_simps test_http_def)
  have h2: "http_Get test_world
      (forecastIo_url test_world ''k'' (fst (openWeatherMap_coordinates test_world ''Oslo'')))
      = (''fio'', None)"
    by (simp add: u) (simp add: test_world_simps test_http_def)
  have h3: "http_Get test_world
      (''http://api.wunderground.com/api/'' @ ''k'' @ ''/conditions/q/'' @ ''Oslo'' @ ''.json'')
      = (''wu'', None)"
    by (simp add: test_world_simps test_http_def)
  have d: "json_Decode test_world b = (test_fields b, None)" for b
    by (rule test_world_simps)
  from providers_normalise_to_celsius [of test_world "''Oslo''" "''owm''" "test_fields ''owm''"
      "''k''" "''fio''" "test_fields ''fio''" "''k''" "''wu''" "test_fields ''wu''"] h1 h2 h3 d
  have "openWeatherMap_temperature test_world ''Oslo''
          = (fsub (test_fields ''owm'' [''main'', ''temp'']) (round64 (27315 / 100)), None)"
    and "forecastIo_temperature test_world ''k'' ''Oslo''
          = (fdiv (fmul (fsub (test_fields ''fio'' [''currently'', ''temperature'']) (Fin 32)) (Fin 5)) (Fin 9), None)"
    and "weatherUnderground_temperature test_world ''k'' ''Oslo''
          = (test_fields ''wu'' [''current_observation'', ''temp_c''], None)"
    by simp_all
  then show ?thesis
    using fahrenheit_50 kelvin_300
    by (simp add: test_fields_def FahrenheitToCelsius_def)
qed

lemma path_city: "index (SplitN (''/weather/'' @ rest) ''/'' 3) 2 = Inr rest"
  by (simp add: index_def numeral_3_eq_3)

lemma path_city_coordinates: "index (SplitN (''/coordinates/'' @ rest) ''/'' 3) 2 = Inr rest"
  by (simp add: index_def numeral_3_eq_3)

text \<open>
  C10: no handler and no provider checks the location. Both handlers take as city
  whatever follows the second slash of the path, the empty string for \<^verbatim>\<open>/weather/\<close> and
  \<^verbatim>\<open>/coordinates/\<close>; the weather handler answers with what the aggregator returns for it,
  and the aggregator, whatever the city and so for the empty one, starts a goroutine for
  every provider: after its \<^verbatim>\<open>range\<close> loop all providers are running and nothing has
  been returned.
\<close>

theorem empty_location_not_rejected:
  "index (SplitN (''/weather/'' @ rest) ''/'' 3) 2 = Inr rest \<and>
   index (SplitN ''/weather/'' ''/'' 3) 2 = Inr '''' \<and>
   weather env es ''/weather/''
     = Inr (case result_of (exec (mw env) '''' es init_state) of
              None \<Rightarrow> None
            | Some (temp, err) \<Rightarrow>
                (case err of
                   Some (Error msg) \<Rightarrow> Some (InternalServerError msg)
                 | None \<Rightarrow> Some (WeatherJSON '''' temp))) \<and>
   coordinates env ''/coordinates/''
     = Inr (CoordinatesJSON '''' (fst (openWeatherMap_coordinates env ''''))) \<and>
   exec w '''' (replicate (length w) Spawn) init_state
     = Some (init_state\<lparr>spawned := length w, running := w\<rparr>) \<and>
   exec (mw env) '''' [Spawn, Spawn, Spawn] init_state
     = Some (init_state\<lparr>spawned := 3, running := mw env\<rparr>)"
proof -
  have a: "index (SplitN ''/weather/'' ''/'' 3) 2 = Inr ''''"
    using path_city [of "''''"] by simp
  have b: "index (SplitN ''/coordinates/'' ''/'' 3) 2 = Inr ''''"
    using path_city_coordinates [of "''''"] by simp
  have c: "coordinates env ''/coordinates/''
      = Inr (CoordinatesJSON '''' (fst (openWeatherMap_coordinates env '''')))"
    using coordinates_err [of env "''''"]
    by (cases "openWeatherMap_coordinates env ''''") (simp add: coordinates_def b)
  have d: "exec (mw env) '''' [Spawn, Spawn, Spawn] init_state
      = Some (init_state\<lparr>spawned := 3, running := mw env\<rparr>)"
    using spawn_all [of "mw env" "''''"] by (simp add: mw_def numeral_3_eq_3)
  show ?thesis
    by (simp only: path_city a c d spawn_all weather_def sum.case simp_thms)
qed

theorem empty_location_not_rejected_witness:
  "weather test_world [Spawn, Spawn, Spawn, Finish 0, RecvErr] ''/weather/''
     = Inr (Some (InternalServerError ''no such host'')) \<and>
   coordinates test_world ''/coordinates/''
     = Inr (CoordinatesJSON '''' \<lparr>Lon = Fin 0, Lat = Fin 0\<rparr>)"
proof -
  have o: "openWeatherMap_temperature test_world '''' = (Fin 0, Some (Error ''no such host''))"
    by (simp add: openWeatherMap_temperature_def test_world_simps test_http_def)
  have r: "result_of (exec (mw test_world) '''' [Spawn, Spawn, Spawn, Finish 0, RecvErr] init_state)
      = Some (Fin 0, Some (Error ''no such host''))"
    by (simp add: result_of_def mw_def init_state_def o send_def drop_nth_def)
  have c: "openWeatherMap_coordinates test_world '''' = (\<lparr>Lon = Fin 0, Lat = Fin 0\<rparr>, None)"
    by (simp add: openWeatherMap_coordinates_def test_world_simps test_http_def)
  from empty_location_not_rejected [of "''''" test_world "[Spawn, Spawn, Spawn, Finish 0, RecvErr]"]
  have "weather test_world [Spawn, Spawn, Spawn, Finish 0, RecvErr] ''/weather/''
      = Inr (case result_of (exec (mw test_world) '''' [Spawn, Spawn, Spawn, Finish 0, RecvErr] init_state) of
              None \<Rightarrow> None
            | Some (temp, err) \<Rightarrow>
                (case err of
                   Some (Error msg) \<Rightarrow> Some (InternalServerError msg)
                 | None \<Rightarrow> Some (WeatherJSON '''' temp)))"
    and "coordinates test_world ''/coordinates/''
      = Inr (CoordinatesJSON '''' (fst (openWeatherMap_coordinates test_world '''')))"
    by blast+
  then show ?thesis by (simp only: r c) simp
qed

section \<open>The mean when every provider succeeds\<close>

text \<open>
  C1 (as stated, fails): the sum is taken in the order of arrival and float64 addition
  rounds, so one provider set has more than one mean. With the readings
  9007199254740992, 1, 1 the call returns 3002399751580330.5 when the goroutines finish
  in the order of the providers, and 3002399751580331.5 when the first provider
  finishes last.
\<close>

theorem arrival_order_changes_mean:
  "result_of (exec [stub (Fin 9007199254740992, None), stub (Fin 1, None), stub (Fin 1, None)]
     ''Oslo''
     [Spawn, Spawn, Spawn, Finish 0, Finish 0, Finish 0, RecvTemp, RecvTemp, RecvTemp, Return]
     init_state) = Some (Fin (6004799503160661 / 2), None) \<and>
   result_of (exec [stub (Fin 9007199254740992, None), stub (Fin 1, None), stub (Fin 1, None)]
     ''Oslo''
     [Spawn, Spawn, Spawn, Finish 1, Finish 1, Finish 0, RecvTemp, RecvTemp, RecvTemp, Return]
     init_state) = Some (Fin (6004799503160663 / 2), None) \<and>
   Fin (6004799503160661 / 2) \<noteq> Fin (6004799503160663 / 2)"
  by (simp add: result_of_def init_state_def stub_def send_def drop_nth_def
      fadd_zero_left fadd_Fin fdiv_Fin float64_of_nat_exact round64_numeral
      round64_2p53_1 round64_2p53_2 round64_2p53_div3 round64_2p53_2_div3)

text \<open>
  C1 (amended): when every provider succeeds, whatever the interleaving, what the call
  returns is a nil error and the float64 quotient by \<^verbatim>\<open>float64(N)\<close> of the float64 sum of
  the N readings, added up in their order of arrival; every order of the readings can
  arrive, and every execution can be continued until the call returns. Where the
  float64 additions are exact, as for whole-number readings whose sum is below
  \<open>2 ^ 53\<close>, that value is the quotient of the exact sum, the same for every
  interleaving; for the readings 20.0, 22.0 and 24.0, in any order, it is 22.0.
\<close>

theorem all_succeed_mean:
  assumes "\<forall>p\<in>set w. snd (p city) = None"
  shows "(\<forall>es s r. exec w city es init_state = Some s \<longrightarrow> ret s = Some r \<longrightarrow>
            (\<exists>vs. mset vs = mset (map (\<lambda>p. fst (p city)) w) \<and>
                  r = (fdiv (foldl fadd (Fin 0) vs) (float64_of_nat (length w)), None))) \<and>
         (\<forall>vs. mset vs = mset (map (\<lambda>p. fst (p city)) w) \<longrightarrow>
            (\<exists>es s. exec w city es init_state = Some s \<and>
               ret s = Some (fdiv (foldl fadd (Fin 0) vs) (float64_of_nat (length w)), None))) \<and>
         (\<forall>es s. exec w city es init_state = Some s \<longrightarrow>
            (\<exists>es' s'. exec w city (es @ es') init_state = Some s' \<and> ret s' \<noteq> None)) \<and>
         (\<forall>ns. map (\<lambda>p. fst (p city)) w = map (\<lambda>n. Fin (of_nat n)) ns \<longrightarrow>
               sum_list ns < 2 ^ 53 \<longrightarrow>
            (\<forall>es s r. exec w city es init_state = Some s \<longrightarrow> ret s = Some r \<longrightarrow>
               r = (fdiv (Fin (of_nat (sum_list ns))) (float64_of_nat (length w)), None))) \<and>
         (mset (map (\<lambda>p. fst (p city)) w) = {#Fin 20, Fin 22, Fin 24#} \<longrightarrow>
            (\<forall>es s r. exec w city es init_state = Some s \<longrightarrow> ret s = Some r \<longrightarrow>
               r = (Fin 22, None)))"
proof -
  have a: "\<exists>vs. mset vs = mset (map (\<lambda>p. fst (p city)) w) \<and>
      r = (fdiv (foldl fadd (Fin 0) vs) (float64_of_nat (length w)), None)"
    if "exec w city es init_state = Some s" "ret s = Some r" for es s r
    using assms that by (rule all_succeed_result)
  have b: "\<exists>es s. exec w city es init_state = Some s \<and>
      ret s = Some (fdiv (foldl fadd (Fin 0) vs) (float64_of_nat (length w)), None)"
    if "mset vs = mset (map (\<lambda>p. fst (p city)) w)" for vs
    using assms that by (rule every_order_arrives)
  have c: "\<exists>es' s'. exec w city (es @ es') init_state = Some s' \<and> ret s' \<noteq> None"
    if "exec w city es init_state = Some s" for es s
    using that by (rule can_complete)
  have d: "r = (fdiv (Fin (of_nat (sum_list ns))) (float64_of_nat (length w)), None)"
    if ns: "map (\<lambda>p. fst (p city)) w = map (\<lambda>n. Fin (of_nat n)) ns" "sum_list ns < 2 ^ 53"
      and ex: "exec w city es init_state = Some s" "ret s = Some r" for ns es s r
  proof -
    from a [OF ex] obtain vs where vs: "mset vs = mset (map (\<lambda>p. fst (p city)) w)"
      and r: "r = (fdiv (foldl fadd (Fin 0) vs) (float64_of_nat (length w)), None)"
      by blast
    from vs ns(1) have "mset vs = mset (map (\<lambda>n. Fin (of_nat n)) ns)" by simp
    then have "foldl fadd (Fin 0) vs = Fin (of_nat (sum_list ns))"
      using ns(2) by (rule exact_sum)
    with r show ?thesis by simp
  qed
  have e: "r = (Fin 22, None)"
    if m: "mset (map (\<lambda>p. fst (p city)) w) = {#Fin 20, Fin 22, Fin 24#}"
      and ex: "exec w city es init_state = Some s" "ret s = Some r" for es s r
  proof -
    from a [OF ex] obtain vs where vs: "mset vs = mset (map (\<lambda>p. fst (p city)) w)"
      and r: "r = (fdiv (foldl fadd (Fin 0) vs) (float64_of_nat (length w)), None)"
      by blast
    from m have "size (mset (map (\<lambda>p. fst (p city)) w)) = 3" by simp
    then have n: "length w = 3" by simp
    from vs m have "foldl fadd (Fin 0) vs = Fin 66" by (simp add: sum3)
    with r n show ?thesis by (simp add: mean3)
  qed
  from a b c d e show ?thesis by blast
qed

theorem all_succeed_mean_witness:
  "snd (stub (Fin 20, None) ''Oslo'') = None \<and>
   snd (stub (Fin 22, None) ''Oslo'') = None \<and>
   snd (stub (Fin 24, None) ''Oslo'') = None \<and>
   result_of (exec [stub (Fin 20, None), stub (Fin 22, None), stub (Fin 24, None)] ''Oslo''
     [Spawn, Spawn, Spawn, Finish 2, RecvTemp, Finish 0, Finish 0, RecvTemp, RecvTemp, Return]
     init_state) = Some (Fin 22, None)"
proof -
  let ?w = "[stub (Fin 20, None), stub (Fin 22, None), stub (Fin 24, None)]"
  let ?es = "[Spawn, Spawn, Spawn, Finish 2, RecvTemp, Finish 0, Finish 0, RecvTemp, RecvTemp, Return]"
  have h: "\<forall>p\<in>set ?w. snd (p ''Oslo'') = None"
    by (simp add: stub_def)
  have m: "mset (map (\<lambda>p. fst (p ''Oslo'')) ?w) = {#Fin 20, Fin 22, Fin 24#}"
    by (simp add: stub_def)
  obtain s where s: "exec ?w ''Oslo'' ?es init_state = Some s" and r: "ret s \<noteq> None"
    by (simp add: init_state_def stub_def send_def drop_nth_def)
  from r obtain r' where r': "ret s = Some r'" by auto
  from all_succeed_mean [OF h] m s r' have "r' = (Fin 22, None)" by blast
  with s r' show ?thesis by (simp add: result_of_def stub_def)
qed

end
